theory Spec2Isabelle
  imports Complex_Main
begin

section \<open>Data model (src/types/index.ts)\<close>

text \<open>
  \<^verbatim>\<open>export type PhotoSet = 'PENDING' | 'BLURRY' | 'CLEAN' | 'FINAL';\<close>
\<close>

datatype PhotoSet = PENDING | BLURRY | CLEAN | FINAL

text \<open>
  The \<^verbatim>\<open>Photo\<close> interface. The field \<^verbatim>\<open>id\<close> is called \<open>photoId\<close> here
  (\<open>id\<close> is the identity function of HOL). Scores are JavaScript numbers, timestamps are
  the milliseconds of \<^verbatim>\<open>Date.getTime()\<close>, \<^verbatim>\<open>fileSize\<close> is a bigint. The
  thumbnail URLs, mime type, dimensions, face count, exposure score, star rating and EXIF
  metadata are carried along unchanged by every operation below and are left out.
\<close>

record Photo =
  photoId :: string
  projectId :: string
  filename :: string
  originalUrl :: string
  fileSize :: int
  blurScore :: "real option"
  isBlurry :: bool
  qualityScore :: "real option"
  hasFaces :: bool
  photoSet :: PhotoSet
  isSelected :: bool
  createdAt :: int
  analyzedAt :: "int option"

section \<open>Persistence boundary: the photo table and the Prisma calls the routes make\<close>

text \<open>
  The table is the list of its rows; \<open>photoId\<close> is the primary key. The three Prisma
  calls used by the move-to-final route:
  \<^item> \<^verbatim>\<open>updateMany({where, data})\<close> rewrites every matching row and returns their number,
  \<^item> \<^verbatim>\<open>findMany({where})\<close> returns the matching rows,
  \<^item> \<^verbatim>\<open>update({where: {id}, data})\<close> rewrites the row with that id and throws when there
    is none (\<open>None\<close>).
\<close>

definition photo_updateMany ::
  "(Photo \<Rightarrow> bool) \<Rightarrow> (Photo \<Rightarrow> Photo) \<Rightarrow> Photo list \<Rightarrow> nat \<times> Photo list" where
  "photo_updateMany wh data tbl =
     (length (filter wh tbl), map (\<lambda>p. if wh p then data p else p) tbl)"

definition photo_findMany :: "(Photo \<Rightarrow> bool) \<Rightarrow> Photo list \<Rightarrow> Photo list" where
  "photo_findMany wh tbl = filter wh tbl"

fun photo_update :: "string \<Rightarrow> (Photo \<Rightarrow> Photo) \<Rightarrow> Photo list \<Rightarrow> Photo list option" where
  "photo_update i data [] = None"
| "photo_update i data (p # tbl) =
     (if photoId p = i then Some (data p # tbl)
      else map_option ((#) p) (photo_update i data tbl))"

text \<open>\<^verbatim>\<open>findUnique({where: {id}})\<close>: how a row is observed.\<close>

definition findUnique :: "Photo list \<Rightarrow> string \<Rightarrow> Photo option" where
  "findUnique tbl i = find (\<lambda>p. photoId p = i) tbl"

section \<open>The move-to-final route (POST and DELETE /api/photos/move-to-final)\<close>

text \<open>
  A request carries the \<^verbatim>\<open>Authorization\<close> header the client sends and the
  \<^verbatim>\<open>photoIds\<close> of the JSON body (\<open>None\<close>: absent or not an array). The handlers
  answer 400 on a missing or empty id list, 200 with the count otherwise, and 500 when a
  database call throws; on a table, \<^verbatim>\<open>update\<close> throws when the row is missing, and
  \<^verbatim>\<open>updateMany\<close> and \<^verbatim>\<open>findMany\<close> do not.
\<close>

record Request =
  authorization :: "string option"
  photoIds :: "string list option"

datatype Response = Status200 nat | Status400 | Status500

text \<open>
  \<^verbatim>\<open>
  const result = await prisma.photo.updateMany({
    where: { id: { in: photoIds }, photoSet: { in: ['BLURRY', 'CLEAN'] } },
    data: { photoSet: 'FINAL', isSelected: true },
  });
  return NextResponse.json({ success: true, movedCount: result.count, ... });
  \<close>
  Nothing in the handler reads the request's headers: the authentication check is a
  \<^verbatim>\<open>TODO\<close> comment.
\<close>

definition POST_move_to_final :: "Request \<Rightarrow> Photo list \<Rightarrow> Response \<times> Photo list" where
  "POST_move_to_final request db =
     (case photoIds request of
        None \<Rightarrow> (Status400, db)
      | Some ids \<Rightarrow>
          if ids = [] then (Status400, db)
          else
            let (count, db') =
                  photo_updateMany
                    (\<lambda>p. photoId p \<in> set ids \<and> photoSet p \<in> {BLURRY, CLEAN})
                    (\<lambda>p. p\<lparr>photoSet := FINAL, isSelected := True\<rparr>) db
            in (Status200 count, db'))"

text \<open>
  \<^verbatim>\<open>const originalSet = photo.isBlurry ? 'BLURRY' : 'CLEAN';\<close>
\<close>

definition originalSet :: "bool \<Rightarrow> PhotoSet" where
  "originalSet blurry = (if blurry then BLURRY else CLEAN)"

text \<open>
  \<^verbatim>\<open>
  const updatePromises = photos.map((photo) => {
    const originalSet = photo.isBlurry ? 'BLURRY' : 'CLEAN';
    return prisma.photo.update({ where: { id: photo.id },
                                 data: { photoSet: originalSet, isSelected: false } });
  });
  await Promise.all(updatePromises);
  \<close>
  Every update is started, one per found photo (the pairs are the \<^verbatim>\<open>select\<close>ed
  \<^verbatim>\<open>id\<close> and \<^verbatim>\<open>isBlurry\<close>); \<^verbatim>\<open>Promise.all\<close> rejects when one of them throws,
  the others still take effect. The flag returned is whether all of them succeeded.
\<close>

fun updatePromises :: "(string \<times> bool) list \<Rightarrow> Photo list \<Rightarrow> bool \<times> Photo list" where
  "updatePromises [] db = (True, db)"
| "updatePromises ((i, blurry) # photos) db =
     (case photo_update i (\<lambda>p. p\<lparr>photoSet := originalSet blurry, isSelected := False\<rparr>) db of
        None \<Rightarrow> (False, snd (updatePromises photos db))
      | Some db' \<Rightarrow> updatePromises photos db')"

definition DELETE_move_to_final :: "Request \<Rightarrow> Photo list \<Rightarrow> Response \<times> Photo list" where
  "DELETE_move_to_final request db =
     (case photoIds request of
        None \<Rightarrow> (Status400, db)
      | Some ids \<Rightarrow>
          if ids = [] then (Status400, db)
          else
            let photos = map (\<lambda>p. (photoId p, isBlurry p))
                           (photo_findMany (\<lambda>p. photoId p \<in> set ids \<and> photoSet p = FINAL) db);
                (ok, db') = updatePromises photos db
            in if ok then (Status200 (length photos), db') else (Status500, db'))"

text \<open>
  The two operations of the Set-Transition Service, as a caller names them. The header of
  the request plays no part in either handler.
\<close>

definition promote :: "string list \<Rightarrow> Photo list \<Rightarrow> Response \<times> Photo list" where
  "promote ids db = POST_move_to_final \<lparr>authorization = None, photoIds = Some ids\<rparr> db"

definition demote :: "string list \<Rightarrow> Photo list \<Rightarrow> Response \<times> Photo list" where
  "demote ids db = DELETE_move_to_final \<lparr>authorization = None, photoIds = Some ids\<rparr> db"

section \<open>The photo store (stores/photo-store.ts)\<close>

text \<open>
  \<^verbatim>\<open>PhotoFilters\<close>, \<^verbatim>\<open>PhotoSortBy\<close> and \<^verbatim>\<open>SortOrder\<close> of src/types/index.ts.
  The optional \<^verbatim>\<open>hasFaces\<close> filter is called \<open>hasFacesFilter\<close> (the photo has a field
  of that name).
\<close>

record PhotoFilters =
  showBlurry :: bool
  showSelected :: bool
  minQualityScore :: "real option"
  hasFacesFilter :: "bool option"

datatype PhotoSortBy = by_quality | by_time | by_name | by_size

datatype SortOrder = asc | desc

record PhotoState =
  photos :: "Photo list"
  selectedIds :: "string set"
  currentPhotoIndex :: int
  currentSet :: PhotoSet
  filters :: PhotoFilters
  sortBy :: PhotoSortBy
  sortOrder :: SortOrder

text \<open>
  The \<^verbatim>\<open>Partial<Photo>\<close> objects the components pass to \<^verbatim>\<open>updatePhoto\<close>:
  \<^verbatim>\<open>{ photoSet, isSelected }\<close> and \<^verbatim>\<open>{ originalUrl }\<close>; a field that is absent keeps
  the photo's value in \<^verbatim>\<open>{ ...photo, ...updates }\<close>.
\<close>

record PhotoUpdates =
  newPhotoSet :: "PhotoSet option"
  newIsSelected :: "bool option"
  newOriginalUrl :: "string option"

definition mergeUpdates :: "Photo \<Rightarrow> PhotoUpdates \<Rightarrow> Photo" where
  "mergeUpdates photo updates =
     photo\<lparr>photoSet := (case newPhotoSet updates of None \<Rightarrow> photoSet photo | Some v \<Rightarrow> v),
           isSelected := (case newIsSelected updates of None \<Rightarrow> isSelected photo | Some v \<Rightarrow> v),
           originalUrl := (case newOriginalUrl updates of None \<Rightarrow> originalUrl photo | Some v \<Rightarrow> v)\<rparr>"

text \<open>
  \<^verbatim>\<open>Partial<PhotoFilters>\<close>: an optional field can be absent (\<open>None\<close>) or given, possibly
  as \<^verbatim>\<open>undefined\<close> (\<open>Some None\<close>), which \<^verbatim>\<open>{ ...state.filters, ...filters }\<close> copies.
\<close>

record FilterUpdates =
  newShowBlurry :: "bool option"
  newShowSelected :: "bool option"
  newMinQualityScore :: "real option option"
  newHasFaces :: "bool option option"

definition mergeFilters :: "PhotoFilters \<Rightarrow> FilterUpdates \<Rightarrow> PhotoFilters" where
  "mergeFilters f u =
     \<lparr>showBlurry = (case newShowBlurry u of None \<Rightarrow> showBlurry f | Some v \<Rightarrow> v),
      showSelected = (case newShowSelected u of None \<Rightarrow> showSelected f | Some v \<Rightarrow> v),
      minQualityScore = (case newMinQualityScore u of None \<Rightarrow> minQualityScore f | Some v \<Rightarrow> v),
      hasFacesFilter = (case newHasFaces u of None \<Rightarrow> hasFacesFilter f | Some v \<Rightarrow> v)\<rparr>"

text \<open>The initial state of the store.\<close>

definition initialState :: PhotoState where
  "initialState =
     \<lparr>photos = [], selectedIds = {}, currentPhotoIndex = 0, currentSet = CLEAN,
      filters = \<lparr>showBlurry = True, showSelected = True, minQualityScore = None,
                 hasFacesFilter = None\<rparr>,
      sortBy = by_time, sortOrder = desc\<rparr>"

subsection \<open>Array helpers\<close>

text \<open>
  \<^verbatim>\<open>xs[i]\<close> on a JavaScript array: \<^verbatim>\<open>undefined\<close> (\<open>None\<close>) outside \<open>0 .. length - 1\<close>.
\<close>

definition array_get :: "'a list \<Rightarrow> int \<Rightarrow> 'a option" where
  "array_get xs i = (if 0 \<le> i \<and> i < int (length xs) then Some (xs ! nat i) else None)"

text \<open>
  \<^verbatim>\<open>Array.prototype.sort(compare)\<close> is stable: \<open>a\<close> stays before \<open>b\<close> unless
  \<open>compare a b > 0\<close>. Insertion from the right gives that order.
\<close>

fun array_insert :: "('a \<Rightarrow> 'a \<Rightarrow> real) \<Rightarrow> 'a \<Rightarrow> 'a list \<Rightarrow> 'a list" where
  "array_insert compare a [] = [a]"
| "array_insert compare a (b # bs) =
     (if compare a b \<le> 0 then a # b # bs else b # array_insert compare a bs)"

definition array_sort :: "('a \<Rightarrow> 'a \<Rightarrow> real) \<Rightarrow> 'a list \<Rightarrow> 'a list" where
  "array_sort compare xs = foldr (array_insert compare) xs []"

text \<open>
  \<^verbatim>\<open>a.localeCompare(b)\<close>: negative, zero or positive. The collation is the host's; the
  model compares character codes, which is that order on names of digits and letters of
  one case. No statement below depends on the order of names.
\<close>

fun localeCompare :: "string \<Rightarrow> string \<Rightarrow> real" where
  "localeCompare [] [] = 0"
| "localeCompare [] (d # ds) = - 1"
| "localeCompare (c # cs) [] = 1"
| "localeCompare (c # cs) (d # ds) =
     (if (of_char c :: nat) < of_char d then - 1
      else if (of_char d :: nat) < of_char c then 1
      else localeCompare cs ds)"

subsection \<open>Computed values\<close>

text \<open>
  The comparator of \<^verbatim>\<open>getFilteredPhotos\<close>:
  \<^verbatim>\<open>
  switch (state.sortBy) {
    case 'quality': comparison = (a.qualityScore || 0) - (b.qualityScore || 0); break;
    case 'time':    comparison = a.createdAt.getTime() - b.createdAt.getTime(); break;
    case 'name':    comparison = a.filename.localeCompare(b.filename); break;
    case 'size':    comparison = Number(a.fileSize) - Number(b.fileSize); break;
  }
  return state.sortOrder === 'asc' ? comparison : -comparison;
  \<close>
\<close>

definition comparison :: "PhotoSortBy \<Rightarrow> Photo \<Rightarrow> Photo \<Rightarrow> real" where
  "comparison k a b =
     (case k of
        by_quality \<Rightarrow> (case qualityScore a of None \<Rightarrow> 0 | Some q \<Rightarrow> q)
                      - (case qualityScore b of None \<Rightarrow> 0 | Some q \<Rightarrow> q)
      | by_time \<Rightarrow> real_of_int (createdAt a) - real_of_int (createdAt b)
      | by_name \<Rightarrow> localeCompare (filename a) (filename b)
      | by_size \<Rightarrow> real_of_int (fileSize a) - real_of_int (fileSize b))"

text \<open>
  \<^verbatim>\<open>getFilteredPhotos\<close>: the photos of the current set, the hide-blurry filter (not on
  the BLURRY tab), the quality floor, the face filter, then the sort.
\<close>

definition getFilteredPhotos :: "PhotoState \<Rightarrow> Photo list" where
  "getFilteredPhotos state =
     (let filtered0 = filter (\<lambda>photo. photoSet photo = currentSet state) (photos state);
          filtered1 = (if \<not> showBlurry (filters state) \<and> currentSet state \<noteq> BLURRY
                       then filter (\<lambda>photo. \<not> isBlurry photo) filtered0 else filtered0);
          filtered2 = (case minQualityScore (filters state) of
                         None \<Rightarrow> filtered1
                       | Some m \<Rightarrow> filter (\<lambda>photo. case qualityScore photo of
                                                       None \<Rightarrow> False
                                                     | Some q \<Rightarrow> m \<le> q) filtered1);
          filtered3 = (case hasFacesFilter (filters state) of
                         None \<Rightarrow> filtered2
                       | Some h \<Rightarrow> filter (\<lambda>photo. hasFaces photo = h) filtered2)
      in array_sort (\<lambda>a b. if sortOrder state = asc then comparison (sortBy state) a b
                            else - comparison (sortBy state) a b) filtered3)"

definition getCurrentPhoto :: "PhotoState \<Rightarrow> Photo option" where
  "getCurrentPhoto state = array_get (getFilteredPhotos state) (currentPhotoIndex state)"

definition getSelectedPhotos :: "PhotoState \<Rightarrow> Photo list" where
  "getSelectedPhotos state = filter (\<lambda>photo. photoId photo \<in> selectedIds state) (photos state)"

definition getPhotosBySet :: "PhotoSet \<Rightarrow> PhotoState \<Rightarrow> Photo list" where
  "getPhotosBySet s state = filter (\<lambda>photo. photoSet photo = s) (photos state)"

subsection \<open>Actions\<close>

text \<open>
  Each action is a \<^verbatim>\<open>set(...)\<close> of Zustand, which merges the returned fields into the
  state and keeps the others.
  \<^verbatim>\<open>setPhotos: (photos) => set({ photos, currentPhotoIndex: 0 })\<close>
\<close>

definition setPhotos :: "Photo list \<Rightarrow> PhotoState \<Rightarrow> PhotoState" where
  "setPhotos ps state = state\<lparr>photos := ps, currentPhotoIndex := 0\<rparr>"

definition addPhoto :: "Photo \<Rightarrow> PhotoState \<Rightarrow> PhotoState" where
  "addPhoto photo state = state\<lparr>photos := photos state @ [photo]\<rparr>"

text \<open>
  \<^verbatim>\<open>
  updatePhoto: (id, updates) => set((state) => ({
    photos: state.photos.map((photo) => photo.id === id ? { ...photo, ...updates } : photo),
  }))
  \<close>
\<close>

definition updatePhoto :: "string \<Rightarrow> PhotoUpdates \<Rightarrow> PhotoState \<Rightarrow> PhotoState" where
  "updatePhoto i updates state =
     state\<lparr>photos := map (\<lambda>photo. if photoId photo = i then mergeUpdates photo updates else photo)
                          (photos state)\<rparr>"

definition removePhoto :: "string \<Rightarrow> PhotoState \<Rightarrow> PhotoState" where
  "removePhoto i state =
     state\<lparr>photos := filter (\<lambda>photo. photoId photo \<noteq> i) (photos state),
           selectedIds := {selectedId \<in> selectedIds state. selectedId \<noteq> i}\<rparr>"

definition toggleSelection :: "string \<Rightarrow> PhotoState \<Rightarrow> PhotoState" where
  "toggleSelection i state =
     state\<lparr>selectedIds := (if i \<in> selectedIds state then selectedIds state - {i}
                            else insert i (selectedIds state))\<rparr>"

definition selectMultiple :: "string list \<Rightarrow> PhotoState \<Rightarrow> PhotoState" where
  "selectMultiple ids state = state\<lparr>selectedIds := selectedIds state \<union> set ids\<rparr>"

definition deselectMultiple :: "string list \<Rightarrow> PhotoState \<Rightarrow> PhotoState" where
  "deselectMultiple ids state = state\<lparr>selectedIds := selectedIds state - set ids\<rparr>"

definition selectAll :: "PhotoState \<Rightarrow> PhotoState" where
  "selectAll state =
     state\<lparr>selectedIds := selectedIds state \<union> set (map photoId (getFilteredPhotos state))\<rparr>"

definition deselectAll :: "PhotoState \<Rightarrow> PhotoState" where
  "deselectAll state = state\<lparr>selectedIds := {}\<rparr>"

definition setCurrentPhotoIndex :: "int \<Rightarrow> PhotoState \<Rightarrow> PhotoState" where
  "setCurrentPhotoIndex index state = state\<lparr>currentPhotoIndex := index\<rparr>"

text \<open>
  \<^verbatim>\<open>
  nextPhoto: () => set((state) => {
    const maxIndex = get().getFilteredPhotos().length - 1;
    return { currentPhotoIndex: Math.min(state.currentPhotoIndex + 1, maxIndex) };
  }),
  prevPhoto: () => set((state) => ({
    currentPhotoIndex: Math.max(state.currentPhotoIndex - 1, 0) })),
  \<close>
\<close>

definition nextPhoto :: "PhotoState \<Rightarrow> PhotoState" where
  "nextPhoto state =
     (let maxIndex = int (length (getFilteredPhotos state)) - 1
      in state\<lparr>currentPhotoIndex := min (currentPhotoIndex state + 1) maxIndex\<rparr>)"

definition prevPhoto :: "PhotoState \<Rightarrow> PhotoState" where
  "prevPhoto state = state\<lparr>currentPhotoIndex := max (currentPhotoIndex state - 1) 0\<rparr>"

definition setFilters :: "FilterUpdates \<Rightarrow> PhotoState \<Rightarrow> PhotoState" where
  "setFilters u state =
     state\<lparr>filters := mergeFilters (filters state) u, currentPhotoIndex := 0\<rparr>"

definition setSortBy :: "PhotoSortBy \<Rightarrow> PhotoState \<Rightarrow> PhotoState" where
  "setSortBy k state = state\<lparr>sortBy := k\<rparr>"

definition setSortOrder :: "SortOrder \<Rightarrow> PhotoState \<Rightarrow> PhotoState" where
  "setSortOrder order state = state\<lparr>sortOrder := order\<rparr>"

text \<open>
  \<^verbatim>\<open>setCurrentSet: (currentSet) => set({ currentSet, currentPhotoIndex: 0 })\<close>
\<close>

definition setCurrentSet :: "PhotoSet \<Rightarrow> PhotoState \<Rightarrow> PhotoState" where
  "setCurrentSet s state = state\<lparr>currentSet := s, currentPhotoIndex := 0\<rparr>"

section \<open>The project page and its photo grid (the page, components/PhotoGrid.tsx)\<close>

text \<open>
  The grid reads the store and its own \<^verbatim>\<open>isMoving\<close> state when it renders; the
  handlers it binds see the values of that render until the next one:
  \<^verbatim>\<open>
  const filteredPhotos = getFilteredPhotos();
  const currentPhoto = filteredPhotos[currentPhotoIndex];
  \<close>
\<close>

record Render =
  filteredPhotos :: "Photo list"
  currentPhoto :: "Photo option"
  renderedPhotoIndex :: int
  renderedSet :: PhotoSet
  renderedIsMoving :: bool

datatype Method = POST | DELETE

text \<open>
  A \<^verbatim>\<open>fetch('/api/photos/move-to-final', { method, headers, body })\<close>, and a handler
  suspended at the \<^verbatim>\<open>await\<close> of one: its \<^verbatim>\<open>photoId\<close> argument, the render whose
  values it closed over and whether \<^verbatim>\<open>nextPhoto()\<close> follows the
  \<^verbatim>\<open>await moveToFinalSet(...)\<close> (the A key).
\<close>

record Fetch =
  fetchMethod :: Method
  fetchAuthorization :: string
  fetchPhotoIds :: "string list"

record Awaiting =
  awaited :: Fetch
  movedPhotoId :: string
  closure :: Render
  thenNextPhoto :: bool
  ofInstance :: nat

text \<open>
  The page holds the polling query, whose \<^verbatim>\<open>data\<close> (\<^verbatim>\<open>photos\<close>, undefined until the
  first result) and \<^verbatim>\<open>error\<close> decide whether the grid is there:
  \<^verbatim>\<open>{!isLoading && !error && photos && photos.length > 0 && (<PhotoGrid />)}\<close>
  (\<^verbatim>\<open>isLoading\<close> holds only while there is no data). The grid's
  \<^verbatim>\<open>const [isMoving, setIsMoving] = useState(false)\<close> is the state of one mounted
  instance: a grid that is mounted again starts with \<^verbatim>\<open>isMoving = false\<close>. The
  instances are numbered; a suspended handler belongs to the instance that started it.
\<close>

record PhotoGrid =
  store :: PhotoState
  accessToken :: string
  queryData :: "Photo list option"
  queryError :: bool
  instanceNo :: nat
  isMoving :: bool
  rendered :: Render
  fetched :: "Fetch list"
  suspended :: "Awaiting list"

definition gridMounted :: "PhotoGrid \<Rightarrow> bool" where
  "gridMounted g =
     (\<not> queryError g \<and> (case queryData g of None \<Rightarrow> False | Some ps \<Rightarrow> ps \<noteq> []))"

text \<open>
  After a change of the query's state: a grid that was not there and now is, is a new
  instance.
\<close>

definition mount :: "bool \<Rightarrow> PhotoGrid \<Rightarrow> PhotoGrid" where
  "mount was g =
     (if gridMounted g \<and> \<not> was then g\<lparr>instanceNo := instanceNo g + 1, isMoving := False\<rparr> else g)"

definition render :: "PhotoGrid \<Rightarrow> PhotoGrid" where
  "render g =
     g\<lparr>rendered :=
         \<lparr>filteredPhotos = getFilteredPhotos (store g),
          currentPhoto = array_get (getFilteredPhotos (store g)) (currentPhotoIndex (store g)),
          renderedPhotoIndex = currentPhotoIndex (store g),
          renderedSet = currentSet (store g),
          renderedIsMoving = isMoving g\<rparr>\<rparr>"

text \<open>What runs after \<^verbatim>\<open>await moveToFinalSet(...)\<close> in the caller.\<close>

definition afterMove :: "bool \<Rightarrow> PhotoGrid \<Rightarrow> PhotoGrid" where
  "afterMove next g = (if next then g\<lparr>store := nextPhoto (store g)\<rparr> else g)"

text \<open>
  \<^verbatim>\<open>moveToFinalSet\<close> up to its \<^verbatim>\<open>await fetch(...)\<close>:
  \<^verbatim>\<open>
  if (isMoving) return;
  setIsMoving(true);
  try {
    if (currentSet === 'FINAL') { const response = await fetch(..., { method: 'DELETE', ... }); ... }
    else if (currentSet === 'BLURRY' || currentSet === 'CLEAN') {
      const response = await fetch(..., { method: 'POST', ... }); ... }
  } catch (error) { ... } finally { setIsMoving(false); }
  \<close>
  On another tab (PENDING) nothing is fetched and the function runs to its end.
\<close>

definition startFetch :: "Render \<Rightarrow> Method \<Rightarrow> string \<Rightarrow> bool \<Rightarrow> PhotoGrid \<Rightarrow> PhotoGrid" where
  "startFetch r m i next g =
     (let call = \<lparr>fetchMethod = m, fetchAuthorization = ''Bearer '' @ accessToken g,
                  fetchPhotoIds = [i]\<rparr>
      in g\<lparr>fetched := fetched g @ [call],
           suspended := suspended g @ [\<lparr>awaited = call, movedPhotoId = i, closure = r,
                                        thenNextPhoto = next, ofInstance = instanceNo g\<rparr>]\<rparr>)"

definition moveToFinalSet :: "Render \<Rightarrow> string \<Rightarrow> bool \<Rightarrow> PhotoGrid \<Rightarrow> PhotoGrid" where
  "moveToFinalSet r i next g =
     (if renderedIsMoving r then afterMove next g
      else
        let g1 = g\<lparr>isMoving := True\<rparr>
        in if renderedSet r = FINAL then startFetch r DELETE i next g1
           else if renderedSet r = BLURRY \<or> renderedSet r = CLEAN then startFetch r POST i next g1
           else afterMove next (g1\<lparr>isMoving := False\<rparr>))"

text \<open>
  The rest of \<^verbatim>\<open>moveToFinalSet\<close>, when the response is there. On success the store is
  patched:
  \<^verbatim>\<open>
  // DELETE
  const photo = filteredPhotos.find(p => p.id === photoId);
  if (photo) {
    const originalSet = photo.isBlurry ? 'BLURRY' : 'CLEAN';
    updatePhoto(photoId, { photoSet: originalSet, isSelected: false });
  }
  // POST
  updatePhoto(photoId, { photoSet: 'FINAL', isSelected: true });
  \<close>
  A response that is not ok, or a fetch that throws, ends in the \<^verbatim>\<open>catch\<close> (an alert);
  \<^verbatim>\<open>finally\<close> resets \<^verbatim>\<open>isMoving\<close>, and the caller goes on. The store is global:
  the patch and \<^verbatim>\<open>nextPhoto()\<close> take effect whether or not the handler's grid is still
  there; \<^verbatim>\<open>setIsMoving(false)\<close> sets the state of the handler's own instance, and does
  nothing when that instance has been unmounted.
\<close>

definition patchAfter :: "Awaiting \<Rightarrow> PhotoState \<Rightarrow> PhotoState" where
  "patchAfter h state =
     (let i = movedPhotoId h
      in case fetchMethod (awaited h) of
           DELETE \<Rightarrow>
             (case find (\<lambda>p. photoId p = i) (filteredPhotos (closure h)) of
                None \<Rightarrow> state
              | Some photo \<Rightarrow>
                  updatePhoto i \<lparr>newPhotoSet = Some (originalSet (isBlurry photo)),
                                 newIsSelected = Some False, newOriginalUrl = None\<rparr> state)
         | POST \<Rightarrow>
             updatePhoto i \<lparr>newPhotoSet = Some FINAL, newIsSelected = Some True,
                            newOriginalUrl = None\<rparr> state)"

definition resume :: "bool \<Rightarrow> PhotoGrid \<Rightarrow> PhotoGrid" where
  "resume ok g =
     (case suspended g of
        [] \<Rightarrow> g
      | h # rest \<Rightarrow>
          let g1 = g\<lparr>suspended := rest\<rparr>;
              g2 = (if ok then g1\<lparr>store := patchAfter h (store g1)\<rparr> else g1);
              g3 = (if gridMounted g \<and> ofInstance h = instanceNo g
                    then g2\<lparr>isMoving := False\<rparr> else g2)
          in afterMove (thenNextPhoto h) g3)"

text \<open>
  What the user does: the A key, space, the arrow keys, Ctrl+A and Ctrl+D, a click on the
  card at an index of the rendered grid, a click on a tab (\<^verbatim>\<open>setCurrentSet\<close>,
  components/PhotoSetTabs.tsx). The tabs are always on the page; the keys and the cards
  are the grid's, and are bound only while the grid is mounted.
\<close>

datatype Input = KeyA | KeySpace | KeyRight | KeyLeft | KeyDown | KeyUp | CtrlA | CtrlD
  | Click nat | Tab PhotoSet

text \<open>
  \<^verbatim>\<open>
  useHotkeys('a', async () => {
    if (currentPhoto && !isMoving) { await moveToFinalSet(currentPhoto.id); nextPhoto(); }
  }, [currentPhoto, currentSet, isMoving]);
  useHotkeys('space', async (e) => {
    if (currentPhoto && !isMoving) { await moveToFinalSet(currentPhoto.id); }
  }, [currentPhoto, currentSet, isMoving]);
  useHotkeys('down', () => setCurrentPhotoIndex(
    Math.min(currentPhotoIndex + 4, filteredPhotos.length - 1)), ...);
  useHotkeys('up', () => setCurrentPhotoIndex(Math.max(currentPhotoIndex - 4, 0)), ...);
  const handlePhotoClick = async (photo, index) => {
    setCurrentPhotoIndex(index);
    if (!isMoving) { await moveToFinalSet(photo.id); }
  };
  \<close>
  A card exists only for an index below the rendered length.
\<close>

definition onGridInput :: "Input \<Rightarrow> PhotoGrid \<Rightarrow> PhotoGrid" where
  "onGridInput k g =
     (let r = rendered g
      in case k of
           KeyA \<Rightarrow>
             (case currentPhoto r of
                None \<Rightarrow> g
              | Some photo \<Rightarrow>
                  if renderedIsMoving r then g else moveToFinalSet r (photoId photo) True g)
         | KeySpace \<Rightarrow>
             (case currentPhoto r of
                None \<Rightarrow> g
              | Some photo \<Rightarrow>
                  if renderedIsMoving r then g else moveToFinalSet r (photoId photo) False g)
         | KeyRight \<Rightarrow> g\<lparr>store := nextPhoto (store g)\<rparr>
         | KeyLeft \<Rightarrow> g\<lparr>store := prevPhoto (store g)\<rparr>
         | KeyDown \<Rightarrow>
             g\<lparr>store := setCurrentPhotoIndex
                           (min (renderedPhotoIndex r + 4) (int (length (filteredPhotos r)) - 1))
                           (store g)\<rparr>
         | KeyUp \<Rightarrow>
             g\<lparr>store := setCurrentPhotoIndex (max (renderedPhotoIndex r - 4) 0) (store g)\<rparr>
         | CtrlA \<Rightarrow> g\<lparr>store := selectAll (store g)\<rparr>
         | CtrlD \<Rightarrow> g\<lparr>store := deselectAll (store g)\<rparr>
         | Click index \<Rightarrow>
             (if index < length (filteredPhotos r)
              then let g1 = g\<lparr>store := setCurrentPhotoIndex (int index) (store g)\<rparr>
                   in if renderedIsMoving r then g1
                      else moveToFinalSet r (photoId (filteredPhotos r ! index)) False g1
              else g)
         | Tab s \<Rightarrow> g)"

definition onInput :: "Input \<Rightarrow> PhotoGrid \<Rightarrow> PhotoGrid" where
  "onInput k g =
     (case k of
        Tab s \<Rightarrow> g\<lparr>store := setCurrentSet s (store g)\<rparr>
      | _ \<Rightarrow> if gridMounted g then onGridInput k g else g)"

text \<open>
  The events of the page: an input, the response of the call in flight (ok or not), and a
  tick of the polling query. A tick that succeeds gives the query its new data and clears
  its error, and the page hands the data (an empty list too) to \<^verbatim>\<open>setPhotos\<close>:
  \<^verbatim>\<open>useEffect(() => { if (photos) { setPhotos(photos); } }, [photos, setPhotos]);\<close>
  A tick that fails (\<^verbatim>\<open>throw new Error('Failed to fetch photos')\<close>, or the fetch throws)
  sets the query's error and keeps its data. Either way the grid is mounted or unmounted
  by the condition above.
\<close>

datatype Event = User Input | Responded bool | Synced "Photo list" | SyncFailed

definition handle :: "Event \<Rightarrow> PhotoGrid \<Rightarrow> PhotoGrid" where
  "handle ev g =
     (case ev of
        User k \<Rightarrow> onInput k g
      | Responded ok \<Rightarrow> resume ok g
      | Synced ps \<Rightarrow>
          mount (gridMounted g)
            (g\<lparr>queryData := Some ps, queryError := False, store := setPhotos ps (store g)\<rparr>)
      | SyncFailed \<Rightarrow> g\<lparr>queryError := True\<rparr>)"

text \<open>
  React commits the state updates of one event and re-renders the component (re-binding
  the handlers, whose dependencies are \<^verbatim>\<open>[currentPhoto, currentSet, isMoving]\<close>)
  before the browser dispatches the next event: an event meets the handlers of a render
  of the current state.
\<close>

definition dispatch :: "Event \<Rightarrow> PhotoGrid \<Rightarrow> PhotoGrid" where
  "dispatch ev g = handle ev (render g)"

definition run :: "Event list \<Rightarrow> PhotoGrid \<Rightarrow> PhotoGrid" where
  "run evs g = foldl (\<lambda>g ev. dispatch ev g) g evs"

text \<open>
  The page as it opens: the query has no data yet, the grid is not there. And the page
  with the grid on a store whose photos the query has delivered: nothing moving, nothing
  fetched.
\<close>

definition openPage :: "string \<Rightarrow> PhotoGrid" where
  "openPage token =
     \<lparr>store = initialState, accessToken = token, queryData = None, queryError = False,
      instanceNo = 0, isMoving = False,
      rendered = \<lparr>filteredPhotos = [], currentPhoto = None, renderedPhotoIndex = 0,
                  renderedSet = currentSet initialState, renderedIsMoving = False\<rparr>,
      fetched = [], suspended = []\<rparr>"

definition openGrid :: "string \<Rightarrow> PhotoState \<Rightarrow> PhotoGrid" where
  "openGrid token state =
     render ((openPage token)\<lparr>store := state, queryData := Some (photos state), instanceNo := 1\<rparr>)"

section \<open>Page and server together\<close>

text \<open>
  \<^verbatim>\<open>GET /api/photos?projectId=...\<close> as the page calls it (no filter parameters, the
  default \<^verbatim>\<open>orderBy: { createdAt: 'desc' }\<close>), answered to the project's owner:
  \<^verbatim>\<open>prisma.photo.findMany({ where: { projectId }, orderBy, select })\<close>. Rows
  with equal timestamps keep the table's order.
\<close>

definition listPhotos :: "string \<Rightarrow> Photo list \<Rightarrow> Photo list" where
  "listPhotos pid db =
     array_sort (\<lambda>a b. real_of_int (createdAt b) - real_of_int (createdAt a))
       (photo_findMany (\<lambda>p. projectId p = pid) db)"

text \<open>
  Modelled from the spec: the column defaults of the \<^verbatim>\<open>Photo\<close> model, which the upload
  route relies on (the Prisma schema is not among the sources). The route creates the row
  from the file, with an empty \<^verbatim>\<open>originalUrl\<close> that it updates after the upload; the
  specification has a photo created PENDING at upload, not analysed and not selected. The
  id is the database's choice and is fresh; the key refuses an id that is taken.
\<close>

definition photo_create ::
  "string \<Rightarrow> string \<Rightarrow> string \<Rightarrow> int \<Rightarrow> string \<Rightarrow> int \<Rightarrow> Photo list \<Rightarrow> Photo list" where
  "photo_create newId pid name bytes url now db =
     (if newId \<in> photoId ` set db then db
      else db @ [\<lparr>photoId = newId, projectId = pid, filename = name, originalUrl = url,
                   fileSize = bytes, blurScore = None, isBlurry = False, qualityScore = None,
                   hasFaces = False, photoSet = PENDING, isSelected = False, createdAt = now,
                   analyzedAt = None\<rparr>])"

text \<open>
  Modelled from the spec: the write-back of the AI analysis service, an external worker
  whose code is not among the sources. It writes \<^verbatim>\<open>blurScore\<close>, \<^verbatim>\<open>isBlurry\<close>,
  \<^verbatim>\<open>qualityScore\<close> and \<^verbatim>\<open>analyzedAt\<close> to the photo record, which moves the photo out of
  PENDING, to BLURRY or CLEAN according to \<^verbatim>\<open>isBlurry\<close>; this is the first and only
  automatic transition, and \<^verbatim>\<open>isBlurry\<close> is immutable once set.
\<close>

definition analysisResult ::
  "string \<Rightarrow> bool \<Rightarrow> real \<Rightarrow> real \<Rightarrow> int \<Rightarrow> Photo list \<Rightarrow> Photo list" where
  "analysisResult i blurry blur quality now db =
     map (\<lambda>p. if photoId p = i \<and> photoSet p = PENDING
               then p\<lparr>blurScore := Some blur, isBlurry := blurry, qualityScore := Some quality,
                      analyzedAt := Some now, photoSet := originalSet blurry\<rparr>
               else p) db"

text \<open>The route that serves a call of the page, and \<^verbatim>\<open>response.ok\<close>.\<close>

definition serve :: "Fetch \<Rightarrow> Photo list \<Rightarrow> Response \<times> Photo list" where
  "serve call db =
     (let request = \<lparr>authorization = Some (fetchAuthorization call),
                     photoIds = Some (fetchPhotoIds call)\<rparr>
      in case fetchMethod call of
           POST \<Rightarrow> POST_move_to_final request db
         | DELETE \<Rightarrow> DELETE_move_to_final request db)"

definition response_ok :: "Response \<Rightarrow> bool" where
  "response_ok r = (case r of Status200 n \<Rightarrow> True | Status400 \<Rightarrow> False | Status500 \<Rightarrow> False)"

text \<open>
  The state of the whole: the table, the page, and the responses of polling requests that
  have read the table and not yet reached the page.
\<close>

record System =
  server :: "Photo list"
  client :: PhotoGrid
  polls :: "Photo list list"

text \<open>
  The operations of the triage core:
  \<^item> \<open>Does k\<close>: the user's input \<open>k\<close> on the page;
  \<^item> \<open>Settles\<close>: the route handles the oldest call in flight and the page gets its response;
  \<^item> \<open>Fails\<close>: the oldest call in flight fails before it reaches the route;
  \<^item> \<open>Calls c\<close>: the route handles a call \<open>c\<close> of another client, with any method, header
    and id list;
  \<^item> \<open>Upload\<close>: a photo is uploaded; \<open>Analysed\<close>: the result of its analysis arrives;
  \<^item> \<open>PollSent pid\<close>: a tick of the polling query reads the project's rows;
  \<^item> \<open>PollArrives\<close>: the oldest outstanding response of a tick reaches the page;
  \<^item> \<open>PollFails\<close>: a tick fails.
\<close>

datatype Operation =
    Does Input
  | Settles
  | Fails
  | Calls Fetch
  | Upload string string string int string int
  | Analysed string bool real real int
  | PollSent string
  | PollArrives
  | PollFails

definition step :: "Operation \<Rightarrow> System \<Rightarrow> System" where
  "step op sys =
     (case op of
        Does k \<Rightarrow> sys\<lparr>client := dispatch (User k) (client sys)\<rparr>
      | Settles \<Rightarrow>
          (case suspended (client sys) of
             [] \<Rightarrow> sys
           | h # rest \<Rightarrow>
               let (response, db') = serve (awaited h) (server sys)
               in sys\<lparr>server := db',
                      client := dispatch (Responded (response_ok response)) (client sys)\<rparr>)
      | Fails \<Rightarrow> sys\<lparr>client := dispatch (Responded False) (client sys)\<rparr>
      | Calls c \<Rightarrow> sys\<lparr>server := snd (serve c (server sys))\<rparr>
      | Upload newId pid name bytes url now \<Rightarrow>
          sys\<lparr>server := photo_create newId pid name bytes url now (server sys)\<rparr>
      | Analysed i blurry blur quality now \<Rightarrow>
          sys\<lparr>server := analysisResult i blurry blur quality now (server sys)\<rparr>
      | PollSent pid \<Rightarrow> sys\<lparr>polls := polls sys @ [listPhotos pid (server sys)]\<rparr>
      | PollArrives \<Rightarrow>
          (case polls sys of
             [] \<Rightarrow> sys
           | ps # rest \<Rightarrow> sys\<lparr>polls := rest, client := dispatch (Synced ps) (client sys)\<rparr>)
      | PollFails \<Rightarrow> sys\<lparr>client := dispatch SyncFailed (client sys)\<rparr>)"

definition execute :: "Operation list \<Rightarrow> System \<Rightarrow> System" where
  "execute ops sys = foldl (\<lambda>sys op. step op sys) sys ops"

definition initialSystem :: "string \<Rightarrow> System" where
  "initialSystem token = \<lparr>server = [], client = openPage token, polls = []\<rparr>"

section \<open>Invariants\<close>

text \<open>The selection invariant of a photo: selected exactly when in FINAL.\<close>

definition selectedIffFinal :: "Photo \<Rightarrow> bool" where
  "selectedIffFinal p = (isSelected p \<longleftrightarrow> photoSet p = FINAL)"

text \<open>
  The selection invariant on the whole: the rows of the table, the photos of the store and
  the responses on their way to the page.
\<close>

definition allSelectedIffFinal :: "System \<Rightarrow> bool" where
  "allSelectedIffFinal sys \<longleftrightarrow>
     (\<forall>p \<in> set (server sys). selectedIffFinal p)
     \<and> (\<forall>p \<in> set (photos (store (client sys))). selectedIffFinal p)
     \<and> (\<forall>ps \<in> set (polls sys). \<forall>p \<in> set ps. selectedIffFinal p)"

text \<open>
  A row in BLURRY or CLEAN is filed according to its \<open>isBlurry\<close> flag; the table is keyed
  by \<open>photoId\<close> and all its rows are filed so.
\<close>

definition classifiedByFlag :: "Photo \<Rightarrow> bool" where
  "classifiedByFlag p \<longleftrightarrow> (photoSet p \<in> {BLURRY, CLEAN} \<longrightarrow> photoSet p = originalSet (isBlurry p))"

definition tableInvariant :: "Photo list \<Rightarrow> bool" where
  "tableInvariant db \<longleftrightarrow> distinct (map photoId db) \<and> (\<forall>p \<in> set db. classifiedByFlag p)"

text \<open>
  The cursor is valid when it is an index of the current view; an empty view has no index,
  and the cursor rests at 0 there.
\<close>

definition cursorValid :: "PhotoState \<Rightarrow> bool" where
  "cursorValid state =
     (let n = int (length (getFilteredPhotos state)); i = currentPhotoIndex state
      in if n = 0 then i = 0 else 0 \<le> i \<and> i < n)"

text \<open>
  The grid is mounted, at most one handler is suspended at a fetch, it belongs to the
  mounted instance, and \<open>isMoving\<close> is set while one is.
\<close>

definition oneInFlight :: "PhotoGrid \<Rightarrow> bool" where
  "oneInFlight g \<longleftrightarrow>
     gridMounted g \<and> length (suspended g) \<le> 1
     \<and> (\<forall>h \<in> set (suspended g). ofInstance h = instanceNo g)
     \<and> (suspended g \<noteq> [] \<longrightarrow> isMoving g)"

text \<open>The events that leave a mounted grid mounted: all but a failed or empty tick.\<close>

definition keepsMounted :: "Event \<Rightarrow> bool" where
  "keepsMounted ev = (case ev of SyncFailed \<Rightarrow> False | Synced ps \<Rightarrow> ps \<noteq> [] | _ \<Rightarrow> True)"

section \<open>Example data\<close>

text \<open>
  A row with every field filled in: an analysed photo has scores and an analysis time, a
  pending one has none; \<open>isSelected\<close> is set exactly on a row created in FINAL.
\<close>

definition examplePhoto :: "string \<Rightarrow> PhotoSet \<Rightarrow> bool \<Rightarrow> Photo" where
  "examplePhoto i s blurry =
     \<lparr>photoId = i, projectId = ''p1'', filename = i @ ''.jpg'', originalUrl = ''/'' @ i,
      fileSize = 1000, blurScore = (if s = PENDING then None else Some 50), isBlurry = blurry,
      qualityScore = (if s = PENDING then None else Some 70), hasFaces = False,
      photoSet = s, isSelected = (s = FINAL), createdAt = 0,
      analyzedAt = (if s = PENDING then None else Some 1)\<rparr>"

text \<open>The project of the first scenario: A in BLURRY, B in CLEAN, C in PENDING.\<close>

definition scenarioABC :: "Photo list" where
  "scenarioABC = [examplePhoto ''A'' BLURRY True, examplePhoto ''B'' CLEAN False,
                  examplePhoto ''C'' PENDING False]"

text \<open>The FINAL tab of the second scenario: D was classified blurry, E was not.\<close>

definition scenarioDE :: "Photo list" where
  "scenarioDE = [examplePhoto ''D'' FINAL True, examplePhoto ''E'' FINAL False]"

text \<open>A row filed in BLURRY whose \<open>isBlurry\<close> flag is not set.\<close>

definition misfiled :: Photo where
  "misfiled = examplePhoto ''X'' BLURRY False"

text \<open>The FINAL tab on D and E, the cursor moved to E.\<close>

definition finalTabAtE :: PhotoState where
  "finalTabAtE = nextPhoto (setCurrentSet FINAL (setPhotos scenarioDE initialState))"

text \<open>The page on a FINAL tab of three photos, the cursor on the first.\<close>

definition finalGrid :: PhotoGrid where
  "finalGrid =
     openGrid ''token''
       (setCurrentSet FINAL
          (setPhotos [examplePhoto ''D'' FINAL True, examplePhoto ''E'' FINAL False,
                      examplePhoto ''F'' FINAL False] initialState))"

text \<open>The page on the BLURRY tab of the project A, B, C: the cursor is on A.\<close>

definition blurryGrid :: PhotoGrid where
  "blurryGrid = openGrid ''token'' (setCurrentSet BLURRY (setPhotos scenarioABC initialState))"

text \<open>
  A tick that overlaps a promote: G is uploaded, analysed and shown on the BLURRY tab; H
  is uploaded; a tick reads the rows; space promotes G and the call settles. The tick's
  response is still on its way.
\<close>

definition overlappingTick :: "Operation list" where
  "overlappingTick =
     [Upload ''G'' ''p1'' ''g.jpg'' 5 ''/g'' 10, Analysed ''G'' True 12 40 20,
      PollSent ''p1'', PollArrives, Does (Tab BLURRY),
      Upload ''H'' ''p1'' ''h.jpg'' 6 ''/h'' 30,
      PollSent ''p1'', Does KeySpace, Settles]"

text \<open>
  G as the table has it after that promote.
\<close>

definition promotedG :: Photo where
  "promotedG =
     \<lparr>photoId = ''G'', projectId = ''p1'', filename = ''g.jpg'', originalUrl = ''/g'',
      fileSize = 5, blurScore = Some 12, isBlurry = True, qualityScore = Some 40,
      hasFaces = False, photoSet = FINAL, isSelected = True, createdAt = 10,
      analyzedAt = Some 20\<rparr>"

text \<open>
  G uploaded and analysed as blurry.
\<close>

definition uploadedAndAnalysed :: "Operation list" where
  "uploadedAndAnalysed =
     [Upload ''G'' ''p1'' ''g.jpg'' 5 ''/g'' 10, Analysed ''G'' True 12 40 20]"

text \<open>
  The A key twice on A with a call in flight, and between the two presses a tick that
  fails (or comes back empty) and one that brings the photos back.
\<close>

definition pressFailPress :: "Event list" where
  "pressFailPress = [User KeyA, SyncFailed, Synced scenarioABC, User KeyA]"

definition pressEmptyPress :: "Event list" where
  "pressEmptyPress = [User KeyA, Synced [], Synced scenarioABC, User KeyA]"

section \<open>Rows are observed through their key\<close>

lemma findUnique_map:
  assumes "\<And>p. photoId (f p) = photoId p"
  shows "findUnique (map f tbl) i = map_option f (findUnique tbl i)"
  by (induction tbl) (simp_all add: findUnique_def assms)

lemma findUnique_Some_iff:
  assumes "distinct (map photoId tbl)"
  shows "findUnique tbl i = Some p \<longleftrightarrow> p \<in> set tbl \<and> photoId p = i"
  using assms by (induction tbl) (auto simp: findUnique_def)

lemma length_filter_card:
  assumes "distinct (map photoId tbl)"
  shows "length (filter wh tbl) = card {i. \<exists>p. findUnique tbl i = Some p \<and> wh p}"
proof -
  have d: "distinct (map photoId (filter wh tbl))"
    using assms by (simp add: distinct_map_filter)
  have "{i. \<exists>p. findUnique tbl i = Some p \<and> wh p} = set (map photoId (filter wh tbl))"
    using assms by (auto simp: findUnique_Some_iff)
  then have "card {i. \<exists>p. findUnique tbl i = Some p \<and> wh p} = length (map photoId (filter wh tbl))"
    using d distinct_card by metis
  then show ?thesis by simp
qed

lemma photo_update_map:
  assumes "distinct (map photoId db)" and "i \<in> photoId ` set db"
  shows "photo_update i f db = Some (map (\<lambda>p. if photoId p = i then f p else p) db)"
  using assms
proof (induction db)
  case Nil
  then show ?case by simp
next
  case (Cons a db)
  show ?case
  proof (cases "photoId a = i")
    case True
    with Cons.prems(1) have "i \<notin> photoId ` set db" by auto
    then have "\<forall>p \<in> set db. photoId p \<noteq> i" by blast
    then have "map (\<lambda>p. if photoId p = i then f p else p) db = db"
      by (simp add: map_idI)
    with True show ?thesis by simp
  next
    case False
    then show ?thesis using Cons by auto
  qed
qed


lemma updatePromises_all:
  assumes "distinct (map photoId db)" and "fst ` set phs \<subseteq> photoId ` set db"
    and "distinct (map fst phs)"
  shows "updatePromises phs db =
           (True, map (\<lambda>p. case map_of phs (photoId p) of
                                None \<Rightarrow> p
                              | Some b \<Rightarrow> p\<lparr>photoSet := originalSet b, isSelected := False\<rparr>) db)"
  using assms
proof (induction phs arbitrary: db)
  case Nil
  then show ?case by simp
next
  case (Cons ph phs)
  obtain i b where ph: "ph = (i, b)" by (cases ph)
  let ?f = "\<lambda>p. p\<lparr>photoSet := originalSet b, isSelected := False\<rparr>"
  let ?db1 = "map (\<lambda>p. if photoId p = i then ?f p else p) db"
  have i_in: "i \<in> photoId ` set db" using Cons.prems(2) ph by simp
  have upd: "photo_update i ?f db = Some ?db1"
    using photo_update_map [OF Cons.prems(1) i_in] .
  have ids1: "map photoId ?db1 = map photoId db" by (simp add: comp_def)
  have d1: "distinct (map photoId ?db1)" unfolding ids1 by (rule Cons.prems(1))
  have sub1: "fst ` set phs \<subseteq> photoId ` set ?db1"
  proof -
    have "photoId ` set ?db1 = set (map photoId ?db1)" by (simp only: set_map)
    also have "\<dots> = photoId ` set db" unfolding ids1 by (simp only: set_map)
    finally show ?thesis using Cons.prems(2) by simp
  qed
  have dphs: "distinct (map fst phs)" and notin: "i \<notin> fst ` set phs"
    using Cons.prems(3) ph by simp_all
  have none: "map_of phs i = None" using notin by (simp add: map_of_eq_None_iff)
  have "updatePromises (ph # phs) db = updatePromises phs ?db1"
    using upd ph by simp
  also have "\<dots> = (True, map (\<lambda>p. case map_of phs (photoId p) of
                                None \<Rightarrow> p
                              | Some b \<Rightarrow> p\<lparr>photoSet := originalSet b, isSelected := False\<rparr>) ?db1)"
    using Cons.IH [OF d1 sub1 dphs] .
  also have "\<dots> = (True, map (\<lambda>p. case map_of (ph # phs) (photoId p) of
                                None \<Rightarrow> p
                              | Some b \<Rightarrow> p\<lparr>photoSet := originalSet b, isSelected := False\<rparr>) db)"
    using none ph by (auto simp: comp_def)
  finally show ?case .
qed

lemma findUnique_Some_id: "findUnique tbl i = Some p \<Longrightarrow> photoId p = i"
  by (induction tbl) (auto simp: findUnique_def split: if_splits)

lemma map_of_selected:
  assumes "distinct (map photoId db)" and "p \<in> set db"
  shows "map_of (map (\<lambda>p. (photoId p, isBlurry p)) (filter wh db)) (photoId p)
           = (if wh p then Some (isBlurry p) else None)"
  using assms
proof (induction db)
  case Nil
  then show ?case by simp
next
  case (Cons a db)
  show ?case
  proof (cases "p = a")
    case True
    have "photoId a \<notin> photoId ` set db" using Cons.prems(1) by simp
    then have "photoId a \<notin> fst ` set (map (\<lambda>p. (photoId p, isBlurry p)) (filter wh db))"
      by force
    then have "map_of (map (\<lambda>p. (photoId p, isBlurry p)) (filter wh db)) (photoId a) = None"
      by (metis map_of_eq_None_iff)
    with True show ?thesis by simp
  next
    case False
    then have pin: "p \<in> set db" using Cons.prems(2) by simp
    have "photoId a \<notin> photoId ` set db" using Cons.prems(1) by simp
    with pin have "photoId p \<noteq> photoId a" by (metis imageI)
    moreover have "distinct (map photoId db)" using Cons.prems(1) by simp
    ultimately show ?thesis using Cons.IH pin by simp
  qed
qed

text \<open>What the two handlers compute on a non-empty id list.\<close>

lemma promote_result:
  assumes "ids \<noteq> []"
  shows "promote ids db =
           (Status200 (length (filter (\<lambda>p. photoId p \<in> set ids \<and> photoSet p \<in> {BLURRY, CLEAN}) db)),
            map (\<lambda>p. if photoId p \<in> set ids \<and> photoSet p \<in> {BLURRY, CLEAN}
                      then p\<lparr>photoSet := FINAL, isSelected := True\<rparr> else p) db)"
  using assms by (simp add: promote_def POST_move_to_final_def photo_updateMany_def)

lemma DELETE_result:
  assumes "distinct (map photoId db)" and "photoIds request = Some ids" and "ids \<noteq> []"
  shows "DELETE_move_to_final request db =
           (Status200 (length (filter (\<lambda>p. photoId p \<in> set ids \<and> photoSet p = FINAL) db)),
            map (\<lambda>p. if photoId p \<in> set ids \<and> photoSet p = FINAL
                      then p\<lparr>photoSet := (if isBlurry p then BLURRY else CLEAN),
                             isSelected := False\<rparr>
                      else p) db)"
proof -
  let ?wh = "\<lambda>p. photoId p \<in> set ids \<and> photoSet p = FINAL"
  let ?phs = "map (\<lambda>p. (photoId p, isBlurry p)) (filter ?wh db)"
  let ?g = "\<lambda>p. case map_of ?phs (photoId p) of
                   None \<Rightarrow> p
                 | Some b \<Rightarrow> p\<lparr>photoSet := originalSet b, isSelected := False\<rparr>"
  let ?f = "\<lambda>p. if ?wh p then p\<lparr>photoSet := (if isBlurry p then BLURRY else CLEAN),
                                  isSelected := False\<rparr> else p"
  have dphs: "distinct (map fst ?phs)"
    using assms(1) by (simp add: comp_def distinct_map_filter)
  have sub: "fst ` set ?phs \<subseteq> photoId ` set db" by force
  have run: "updatePromises ?phs db = (True, map ?g db)"
    by (rule updatePromises_all [OF assms(1) sub dphs])
  have gf: "map ?g db = map ?f db"
    by (rule map_cong [OF refl]) (simp add: map_of_selected [OF assms(1)] originalSet_def)
  show ?thesis
    using assms(2,3) run gf
    by (simp add: DELETE_move_to_final_def photo_findMany_def)
qed

lemma demote_result:
  assumes "distinct (map photoId db)" and "ids \<noteq> []"
  shows "demote ids db =
           (Status200 (length (filter (\<lambda>p. photoId p \<in> set ids \<and> photoSet p = FINAL) db)),
            map (\<lambda>p. if photoId p \<in> set ids \<and> photoSet p = FINAL
                      then p\<lparr>photoSet := (if isBlurry p then BLURRY else CLEAN),
                             isSelected := False\<rparr>
                      else p) db)"
  unfolding demote_def using assms by (intro DELETE_result) simp_all

text \<open>Neither handler reads the caller.\<close>

lemma move_to_final_ignores_authorization:
  "POST_move_to_final (request\<lparr>authorization := a\<rparr>) db = POST_move_to_final request db"
  "DELETE_move_to_final (request\<lparr>authorization := a\<rparr>) db = DELETE_move_to_final request db"
  by (simp_all add: POST_move_to_final_def DELETE_move_to_final_def)

section \<open>The server side of promote and demote\<close>

text \<open>
  Claim C3. On a table keyed by \<open>photoId\<close> and a non-empty id list, promote answers 200
  with the number of requested ids that resolve to a row in BLURRY or CLEAN, keeps the
  rows and their order, and changes exactly those rows: each gets \<open>photoSet = FINAL\<close> and
  \<open>isSelected = True\<close> (one \<open>updateMany\<close>), every other row, a PENDING one for example,
  is returned as it was.
\<close>

theorem promote_affects_exactly_qualifying:
  assumes "distinct (map photoId db)" and "ids \<noteq> []"
  shows "fst (promote ids db) =
           Status200 (card {i \<in> set ids. \<exists>p. findUnique db i = Some p \<and> photoSet p \<in> {BLURRY, CLEAN}})
       \<and> map photoId (snd (promote ids db)) = map photoId db
       \<and> (\<forall>i. findUnique (snd (promote ids db)) i =
               map_option (\<lambda>p. if i \<in> set ids \<and> photoSet p \<in> {BLURRY, CLEAN}
                                then p\<lparr>photoSet := FINAL, isSelected := True\<rparr> else p)
                          (findUnique db i))"
proof -
  let ?wh = "\<lambda>p. photoId p \<in> set ids \<and> photoSet p \<in> {BLURRY, CLEAN}"
  let ?f = "\<lambda>p. if ?wh p then p\<lparr>photoSet := FINAL, isSelected := True\<rparr> else p"
  have res: "promote ids db = (Status200 (length (filter ?wh db)), map ?f db)"
    using assms(2) by (rule promote_result)
  have "{i. \<exists>p. findUnique db i = Some p \<and> ?wh p}
          = {i \<in> set ids. \<exists>p. findUnique db i = Some p \<and> photoSet p \<in> {BLURRY, CLEAN}}"
    by (auto dest: findUnique_Some_id)
  then have cnt: "length (filter ?wh db)
          = card {i \<in> set ids. \<exists>p. findUnique db i = Some p \<and> photoSet p \<in> {BLURRY, CLEAN}}"
    using length_filter_card [OF assms(1), of ?wh] by simp
  have ids: "map photoId (map ?f db) = map photoId db" by (simp add: comp_def)
  have obs: "findUnique (map ?f db) i =
               map_option (\<lambda>p. if i \<in> set ids \<and> photoSet p \<in> {BLURRY, CLEAN}
                                then p\<lparr>photoSet := FINAL, isSelected := True\<rparr> else p)
                          (findUnique db i)" for i
  proof -
    have "findUnique (map ?f db) i = map_option ?f (findUnique db i)"
      by (rule findUnique_map) simp
    also have "\<dots> = map_option (\<lambda>p. if i \<in> set ids \<and> photoSet p \<in> {BLURRY, CLEAN}
                                then p\<lparr>photoSet := FINAL, isSelected := True\<rparr> else p)
                          (findUnique db i)"
      by (cases "findUnique db i") (auto dest: findUnique_Some_id)
    finally show ?thesis .
  qed
  show ?thesis unfolding res fst_conv snd_conv using cnt ids obs by simp
qed

text \<open>
  The scenario of C3: \<open>promote [A, C]\<close> on A (BLURRY), B (CLEAN), C (PENDING) counts 1,
  makes A FINAL and selected and leaves B and C as they were.
\<close>

theorem promote_scenario_ABC:
  "distinct (map photoId scenarioABC) \<and> [''A'', ''C''] \<noteq> []
   \<and> fst (promote [''A'', ''C''] scenarioABC) = Status200 1
   \<and> findUnique (snd (promote [''A'', ''C''] scenarioABC)) ''A''
         = Some ((examplePhoto ''A'' BLURRY True)\<lparr>photoSet := FINAL, isSelected := True\<rparr>)
   \<and> findUnique (snd (promote [''A'', ''C''] scenarioABC)) ''B''
         = Some (examplePhoto ''B'' CLEAN False)
   \<and> findUnique (snd (promote [''A'', ''C''] scenarioABC)) ''C''
         = Some (examplePhoto ''C'' PENDING False)
   \<and> photoSet (examplePhoto ''C'' PENDING False) = PENDING
   \<and> \<not> isSelected (examplePhoto ''C'' PENDING False)"
  using promote_affects_exactly_qualifying [of scenarioABC "[''A'', ''C'']"]
  by (simp add: scenarioABC_def examplePhoto_def promote_def POST_move_to_final_def
        photo_updateMany_def findUnique_def)

text \<open>
  Claim C4. On a table keyed by \<open>photoId\<close> and a non-empty id list, demote answers 200
  with the number of requested ids whose row is in FINAL, and changes exactly those rows,
  one update each: the row goes to BLURRY when its \<open>isBlurry\<close> flag is set and to CLEAN
  otherwise, with \<open>isSelected = False\<close>; every other row is returned as it was.
\<close>

theorem demote_affects_exactly_final:
  assumes "distinct (map photoId db)" and "ids \<noteq> []"
  shows "fst (demote ids db) =
           Status200 (card {i \<in> set ids. \<exists>p. findUnique db i = Some p \<and> photoSet p = FINAL})
       \<and> map photoId (snd (demote ids db)) = map photoId db
       \<and> (\<forall>i. findUnique (snd (demote ids db)) i =
               map_option (\<lambda>p. if i \<in> set ids \<and> photoSet p = FINAL
                                then p\<lparr>photoSet := (if isBlurry p then BLURRY else CLEAN),
                                       isSelected := False\<rparr>
                                else p)
                          (findUnique db i))"
proof -
  let ?wh = "\<lambda>p. photoId p \<in> set ids \<and> photoSet p = FINAL"
  let ?f = "\<lambda>p. if ?wh p then p\<lparr>photoSet := (if isBlurry p then BLURRY else CLEAN),
                                  isSelected := False\<rparr> else p"
  have res: "demote ids db = (Status200 (length (filter ?wh db)), map ?f db)"
    using assms by (rule demote_result)
  have "{i. \<exists>p. findUnique db i = Some p \<and> ?wh p}
          = {i \<in> set ids. \<exists>p. findUnique db i = Some p \<and> photoSet p = FINAL}"
    by (auto dest: findUnique_Some_id)
  then have cnt: "length (filter ?wh db)
          = card {i \<in> set ids. \<exists>p. findUnique db i = Some p \<and> photoSet p = FINAL}"
    using length_filter_card [OF assms(1), of ?wh] by simp
  have ids: "map photoId (map ?f db) = map photoId db" by (simp add: comp_def)
  have obs: "findUnique (map ?f db) i =
               map_option (\<lambda>p. if i \<in> set ids \<and> photoSet p = FINAL
                                then p\<lparr>photoSet := (if isBlurry p then BLURRY else CLEAN),
                                       isSelected := False\<rparr>
                                else p)
                          (findUnique db i)" for i
  proof -
    have "findUnique (map ?f db) i = map_option ?f (findUnique db i)"
      by (rule findUnique_map) simp
    also have "\<dots> = map_option (\<lambda>p. if i \<in> set ids \<and> photoSet p = FINAL
                                then p\<lparr>photoSet := (if isBlurry p then BLURRY else CLEAN),
                                       isSelected := False\<rparr>
                                else p)
                          (findUnique db i)"
      by (cases "findUnique db i") (auto dest: findUnique_Some_id)
    finally show ?thesis .
  qed
  show ?thesis unfolding res fst_conv snd_conv using cnt ids obs by simp
qed

text \<open>
  The scenario of C4: \<open>demote [D, E]\<close> on the FINAL rows D (blurry) and E (not blurry)
  counts 2, sends D to BLURRY and E to CLEAN, both unselected.
\<close>

theorem demote_scenario_DE:
  "distinct (map photoId scenarioDE) \<and> [''D'', ''E''] \<noteq> []
   \<and> fst (demote [''D'', ''E''] scenarioDE) = Status200 2
   \<and> findUnique (snd (demote [''D'', ''E''] scenarioDE)) ''D''
         = Some ((examplePhoto ''D'' FINAL True)\<lparr>photoSet := BLURRY, isSelected := False\<rparr>)
   \<and> findUnique (snd (demote [''D'', ''E''] scenarioDE)) ''E''
         = Some ((examplePhoto ''E'' FINAL False)\<lparr>photoSet := CLEAN, isSelected := False\<rparr>)"
  using demote_affects_exactly_final [of scenarioDE "[''D'', ''E'']"]
  by (simp add: scenarioDE_def examplePhoto_def demote_def DELETE_move_to_final_def
        photo_findMany_def findUnique_def originalSet_def)

text \<open>
  Claim C5 at a request without any \<^verbatim>\<open>Authorization\<close> header: both handlers answer
  200 and change the row.
\<close>

theorem move_to_final_unauthenticated:
  "POST_move_to_final \<lparr>authorization = None, photoIds = Some [''A'']\<rparr> scenarioABC
     = (Status200 1,
        [(examplePhoto ''A'' BLURRY True)\<lparr>photoSet := FINAL, isSelected := True\<rparr>,
         examplePhoto ''B'' CLEAN False, examplePhoto ''C'' PENDING False])
   \<and> DELETE_move_to_final \<lparr>authorization = None, photoIds = Some [''D'']\<rparr> scenarioDE
     = (Status200 1,
        [(examplePhoto ''D'' FINAL True)\<lparr>photoSet := BLURRY, isSelected := False\<rparr>,
         examplePhoto ''E'' FINAL False])"
  by (simp add: scenarioABC_def scenarioDE_def examplePhoto_def POST_move_to_final_def
        DELETE_move_to_final_def photo_updateMany_def photo_findMany_def originalSet_def)

section \<open>The store\<close>

text \<open>
  Claim C10. \<open>setPhotos\<close> replaces the photo list and resets the cursor to 0; the
  selection ids, the active set, the filters, the sort key and the sort direction are
  those of the state before, for every list. A tick of the polling query that succeeds
  does that to the store, and fetches and resumes nothing.
\<close>

theorem setPhotos_frame:
  "photos (setPhotos ps state) = ps
   \<and> currentPhotoIndex (setPhotos ps state) = 0
   \<and> selectedIds (setPhotos ps state) = selectedIds state
   \<and> currentSet (setPhotos ps state) = currentSet state
   \<and> filters (setPhotos ps state) = filters state
   \<and> sortBy (setPhotos ps state) = sortBy state
   \<and> sortOrder (setPhotos ps state) = sortOrder state
   \<and> store (dispatch (Synced ps) g) = setPhotos ps (store g)
   \<and> fetched (dispatch (Synced ps) g) = fetched g
   \<and> suspended (dispatch (Synced ps) g) = suspended g"
proof -
  have tick: "store (dispatch (Synced ps) g) = setPhotos ps (store g)"
    "fetched (dispatch (Synced ps) g) = fetched g"
    "suspended (dispatch (Synced ps) g) = suspended g"
    by (simp_all add: dispatch_def handle_def mount_def render_def)
  show ?thesis unfolding tick by (simp add: setPhotos_def)
qed

text \<open>
  The sort permutes the view; the view does not depend on the cursor.
\<close>

lemma length_array_insert: "length (array_insert c a bs) = Suc (length bs)"
  by (induction bs) simp_all

lemma length_array_sort: "length (array_sort c xs) = length xs"
  unfolding array_sort_def by (induction xs) (simp_all add: length_array_insert)

lemma set_array_insert: "set (array_insert c a bs) = insert a (set bs)"
  by (induction bs) auto

lemma set_array_sort: "set (array_sort c xs) = set xs"
  unfolding array_sort_def by (induction xs) (simp_all add: set_array_insert)

lemma distinct_array_insert:
  "distinct (map f (array_insert c a bs)) \<longleftrightarrow> f a \<notin> f ` set bs \<and> distinct (map f bs)"
  by (induction bs) (auto simp: set_array_insert)

lemma distinct_array_sort: "distinct (map f (array_sort c xs)) \<longleftrightarrow> distinct (map f xs)"
  unfolding array_sort_def
  by (induction xs) (simp_all add: distinct_array_insert set_array_sort [unfolded array_sort_def])

lemma view_ignores_cursor:
  "getFilteredPhotos (state\<lparr>currentPhotoIndex := i\<rparr>) = getFilteredPhotos state"
  by (simp add: getFilteredPhotos_def Let_def cong: if_cong)

lemma view_length_cong:
  assumes "photos s = photos t" and "currentSet s = currentSet t" and "filters s = filters t"
  shows "length (getFilteredPhotos s) = length (getFilteredPhotos t)"
  using assms by (simp add: getFilteredPhotos_def Let_def length_array_sort split: option.splits)

lemma view_nextPhoto: "getFilteredPhotos (nextPhoto state) = getFilteredPhotos state"
  by (simp add: nextPhoto_def Let_def view_ignores_cursor)

lemma cursor_nextPhoto:
  "currentPhotoIndex (nextPhoto state)
     = min (currentPhotoIndex state + 1) (int (length (getFilteredPhotos state)) - 1)"
  by (simp add: nextPhoto_def Let_def)

lemma view_scenarioDE_final:
  "getFilteredPhotos (setCurrentSet FINAL (setPhotos scenarioDE initialState)) = scenarioDE"
  by (simp add: getFilteredPhotos_def setCurrentSet_def setPhotos_def initialState_def
        scenarioDE_def examplePhoto_def array_sort_def comparison_def Let_def)

text \<open>
  Claim C9, as stated, at the FINAL tab on D and E with the cursor on E: the patch that
  demotes E (\<open>updatePhoto\<close>) takes E out of the view and leaves the cursor at 1, past the
  end of the one-photo view, where there is no current photo.
\<close>

theorem cursor_left_past_the_end:
  "cursorValid finalTabAtE
   \<and> \<not> cursorValid (updatePhoto ''E'' \<lparr>newPhotoSet = Some CLEAN, newIsSelected = Some False,
                                       newOriginalUrl = None\<rparr> finalTabAtE)
   \<and> getCurrentPhoto (updatePhoto ''E'' \<lparr>newPhotoSet = Some CLEAN, newIsSelected = Some False,
                                        newOriginalUrl = None\<rparr> finalTabAtE) = None"
  by (simp add: cursorValid_def getCurrentPhoto_def array_get_def finalTabAtE_def nextPhoto_def
        updatePhoto_def mergeUpdates_def getFilteredPhotos_def setCurrentSet_def setPhotos_def
        initialState_def scenarioDE_def examplePhoto_def array_sort_def comparison_def Let_def)

text \<open>
  Claim C9, amended. \<open>setPhotos\<close>, \<open>setCurrentSet\<close> and \<open>setFilters\<close> reset the cursor
  to 0, which is valid; \<open>prevPhoto\<close> keeps a valid cursor valid, and so does \<open>nextPhoto\<close>
  on a view that is not empty; a change of the sort key or direction keeps a valid cursor
  valid. \<open>updatePhoto\<close>, \<open>addPhoto\<close> and \<open>removePhoto\<close> leave the cursor where it is.
\<close>

theorem cursor_reset_and_clamp:
  "cursorValid (setPhotos ps state)
   \<and> cursorValid (setCurrentSet s state)
   \<and> cursorValid (setFilters u state)
   \<and> (cursorValid state \<longrightarrow> cursorValid (prevPhoto state))
   \<and> (cursorValid state \<and> getFilteredPhotos state \<noteq> [] \<longrightarrow> cursorValid (nextPhoto state))
   \<and> (cursorValid state \<longrightarrow> cursorValid (setSortBy k state) \<and> cursorValid (setSortOrder order state))
   \<and> currentPhotoIndex (updatePhoto i updates state) = currentPhotoIndex state
   \<and> currentPhotoIndex (addPhoto photo state) = currentPhotoIndex state
   \<and> currentPhotoIndex (removePhoto i state) = currentPhotoIndex state"
proof -
  have reset: "cursorValid t" if "currentPhotoIndex t = 0" for t
    using that by (simp add: cursorValid_def Let_def)
  have a: "cursorValid (setPhotos ps state)" by (rule reset) (simp add: setPhotos_def)
  have b: "cursorValid (setCurrentSet s state)" by (rule reset) (simp add: setCurrentSet_def)
  have c: "cursorValid (setFilters u state)" by (rule reset) (simp add: setFilters_def)
  have d: "cursorValid (prevPhoto state)" if "cursorValid state"
  proof -
    have "getFilteredPhotos (prevPhoto state) = getFilteredPhotos state"
      by (simp add: prevPhoto_def view_ignores_cursor)
    moreover have "currentPhotoIndex (prevPhoto state) = max (currentPhotoIndex state - 1) 0"
      by (simp add: prevPhoto_def)
    ultimately show ?thesis using that
      by (auto simp: cursorValid_def Let_def split: if_splits)
  qed
  have e: "cursorValid (nextPhoto state)"
    if "cursorValid state" and "getFilteredPhotos state \<noteq> []"
    using that by (auto simp: cursorValid_def Let_def view_nextPhoto cursor_nextPhoto)
  have f: "cursorValid t"
    if "cursorValid state" and "photos t = photos state" and "currentSet t = currentSet state"
      and "filters t = filters state" and "currentPhotoIndex t = currentPhotoIndex state" for t
  proof -
    have "length (getFilteredPhotos t) = length (getFilteredPhotos state)"
      using that(2-4) by (rule view_length_cong)
    then show ?thesis using that(1,5) by (simp add: cursorValid_def Let_def)
  qed
  have g: "cursorValid (setSortBy k state)" if "cursorValid state"
    by (rule f [OF that]) (simp_all add: setSortBy_def)
  have h: "cursorValid (setSortOrder order state)" if "cursorValid state"
    by (rule f [OF that]) (simp_all add: setSortOrder_def)
  show ?thesis using a b c d e g h
    by (simp add: updatePhoto_def addPhoto_def removePhoto_def)
qed

text \<open>
  On the FINAL tab of D and E: the reset cursor, one step forward, one step back.
\<close>

theorem cursor_reset_and_clamp_on_final_tab:
  "cursorValid (setCurrentSet FINAL (setPhotos scenarioDE initialState))
   \<and> getFilteredPhotos (setCurrentSet FINAL (setPhotos scenarioDE initialState)) \<noteq> []
   \<and> cursorValid finalTabAtE \<and> currentPhotoIndex finalTabAtE = 1
   \<and> cursorValid (prevPhoto finalTabAtE)"
proof -
  let ?s = "setCurrentSet FINAL (setPhotos scenarioDE initialState)"
  have v: "getFilteredPhotos ?s = scenarioDE" by (rule view_scenarioDE_final)
  have ne: "getFilteredPhotos ?s \<noteq> []" unfolding v by (simp add: scenarioDE_def)
  have a: "cursorValid ?s"
    using cursor_reset_and_clamp [of _ "setPhotos scenarioDE initialState" FINAL] by blast
  have b: "cursorValid finalTabAtE"
    unfolding finalTabAtE_def using cursor_reset_and_clamp [of _ ?s] a ne by blast
  have c: "cursorValid (prevPhoto finalTabAtE)"
    using cursor_reset_and_clamp [of _ finalTabAtE] b by blast
  have d: "currentPhotoIndex finalTabAtE = 1"
    unfolding finalTabAtE_def cursor_nextPhoto v by (simp add: scenarioDE_def setCurrentSet_def)
  show ?thesis using a ne b c d by blast
qed

section \<open>The triage key\<close>

lemma render_fields:
  "store (render g) = store g" "isMoving (render g) = isMoving g"
  "fetched (render g) = fetched g" "suspended (render g) = suspended g"
  "accessToken (render g) = accessToken g"
  "renderedIsMoving (rendered (render g)) = isMoving g"
  "renderedSet (rendered (render g)) = currentSet (store g)"
  "currentPhoto (rendered (render g)) = getCurrentPhoto (store g)"
  "gridMounted (render g) = gridMounted g" "instanceNo (render g) = instanceNo g"
  by (simp_all add: render_def getCurrentPhoto_def gridMounted_def)

lemma afterMove_fields:
  "isMoving (afterMove n g) = isMoving g" "fetched (afterMove n g) = fetched g"
  "suspended (afterMove n g) = suspended g"
  "photos (store (afterMove n g)) = photos (store g)"
  "gridMounted (afterMove n g) = gridMounted g" "instanceNo (afterMove n g) = instanceNo g"
  by (simp_all add: afterMove_def nextPhoto_def Let_def gridMounted_def)

lemma triage_key_starts_fetch:
  assumes "gridMounted g" and "\<not> isMoving g" and "getCurrentPhoto (store g) = Some p"
    and "currentSet (store g) \<noteq> PENDING"
  shows "dispatch (User KeyA) g =
           startFetch (rendered (render g))
             (if currentSet (store g) = FINAL then DELETE else POST) (photoId p) True
             ((render g)\<lparr>isMoving := True\<rparr>)"
proof -
  have set: "currentSet (store g) = FINAL \<or> currentSet (store g) = BLURRY \<or> currentSet (store g) = CLEAN"
    using assms(4) by (cases "currentSet (store g)") simp_all
  show ?thesis
    using assms(1,2,3) set
    by (auto simp: dispatch_def handle_def onInput_def onGridInput_def Let_def render_fields
          moveToFinalSet_def)
qed

lemma store_after_response:
  assumes "suspended g = h # rest"
  shows "store (dispatch (Responded ok) g)
           = (let patched = (if ok then patchAfter h (store g) else store g)
              in if thenNextPhoto h then nextPhoto patched else patched)"
  using assms
  by (simp add: dispatch_def handle_def resume_def render_fields afterMove_def Let_def)

lemma finalGrid_view:
  "getFilteredPhotos (store finalGrid)
     = [examplePhoto ''D'' FINAL True, examplePhoto ''E'' FINAL False, examplePhoto ''F'' FINAL False]"
  by (simp add: finalGrid_def openGrid_def openPage_def render_def getFilteredPhotos_def
        setCurrentSet_def setPhotos_def initialState_def examplePhoto_def array_sort_def
        comparison_def Let_def)

lemma blurryGrid_facts:
  "gridMounted blurryGrid" "suspended blurryGrid = []" "\<not> isMoving blurryGrid"
  "currentSet (store blurryGrid) = BLURRY" "accessToken blurryGrid = ''token''"
  "fetched blurryGrid = []" "photos (store blurryGrid) = scenarioABC"
  by (simp_all add: blurryGrid_def openGrid_def openPage_def render_def setCurrentSet_def
        setPhotos_def gridMounted_def scenarioABC_def)

lemma blurryGrid_current:
  "getCurrentPhoto (store blurryGrid) = Some (examplePhoto ''A'' BLURRY True)"
  by (simp add: getCurrentPhoto_def array_get_def blurryGrid_def openGrid_def openPage_def
        render_def getFilteredPhotos_def setCurrentSet_def setPhotos_def initialState_def
        scenarioABC_def examplePhoto_def array_sort_def comparison_def Let_def)

text \<open>
  Claim C6, as stated, on a FINAL tab of three photos with the cursor on the first: the A
  key fetches with DELETE, and when the response is there the cursor is at 1; it has
  moved, past the photo that took the place of the demoted one.
\<close>

theorem triage_key_advances_on_final:
  "currentSet (store finalGrid) = FINAL
   \<and> currentPhotoIndex (store finalGrid) = 0
   \<and> fetchMethod (last (fetched (run [User KeyA] finalGrid))) = DELETE
   \<and> currentPhotoIndex (store (run [User KeyA, Responded True] finalGrid)) = 1"
  by (simp add: run_def dispatch_def handle_def onInput_def onGridInput_def gridMounted_def
        resume_def moveToFinalSet_def
        startFetch_def afterMove_def patchAfter_def nextPhoto_def updatePhoto_def
        mergeUpdates_def originalSet_def array_get_def
        finalGrid_def openGrid_def openPage_def render_def getFilteredPhotos_def setCurrentSet_def
        setPhotos_def initialState_def examplePhoto_def array_sort_def comparison_def Let_def)

text \<open>
  Claim C6, amended. On the mounted grid, with no call in flight, on a current photo of the
  BLURRY, CLEAN or FINAL tab, the A key fetches once, with DELETE (demote) on FINAL and with POST (promote)
  on BLURRY and CLEAN, for the current photo's id, and leaves the store as it is; when the
  response is there, ok or not, \<open>nextPhoto\<close> runs on every tab, FINAL included: the cursor
  is the smaller of the old cursor plus one and the last index of the view as it is then.
\<close>

theorem triage_key_always_advances:
  assumes "gridMounted g" and "suspended g = []" and "\<not> isMoving g"
    and "getCurrentPhoto (store g) = Some p" and "currentSet (store g) \<noteq> PENDING"
  shows "fetched (dispatch (User KeyA) g) =
           fetched g @ [\<lparr>fetchMethod = (if currentSet (store g) = FINAL then DELETE else POST),
                          fetchAuthorization = ''Bearer '' @ accessToken g,
                          fetchPhotoIds = [photoId p]\<rparr>]
       \<and> store (dispatch (User KeyA) g) = store g
       \<and> (\<forall>ok. currentPhotoIndex (store (dispatch (Responded ok) (dispatch (User KeyA) g)))
                 = min (currentPhotoIndex (store g) + 1)
                       (int (length (getFilteredPhotos
                          (store (dispatch (Responded ok) (dispatch (User KeyA) g))))) - 1))"
proof -
  let ?m = "if currentSet (store g) = FINAL then DELETE else POST"
  let ?call = "\<lparr>fetchMethod = ?m, fetchAuthorization = ''Bearer '' @ accessToken g,
                 fetchPhotoIds = [photoId p]\<rparr>"
  let ?g1 = "dispatch (User KeyA) g"
  have start: "?g1 = startFetch (rendered (render g)) ?m (photoId p) True ((render g)\<lparr>isMoving := True\<rparr>)"
    using assms(1,3,4,5) by (rule triage_key_starts_fetch)
  have f: "fetched ?g1 = fetched g @ [?call]"
    unfolding start by (simp add: startFetch_def Let_def render_fields)
  have s: "store ?g1 = store g"
    unfolding start by (simp add: startFetch_def Let_def render_fields)
  have susp: "suspended ?g1 = [\<lparr>awaited = ?call, movedPhotoId = photoId p,
                                 closure = rendered (render g), thenNextPhoto = True,
                                 ofInstance = instanceNo g\<rparr>]"
    unfolding start using assms(2) by (simp add: startFetch_def Let_def render_fields)
  have adv: "currentPhotoIndex (store (dispatch (Responded ok) ?g1))
               = min (currentPhotoIndex (store g) + 1)
                     (int (length (getFilteredPhotos (store (dispatch (Responded ok) ?g1)))) - 1)" for ok
  proof -
    let ?h = "\<lparr>awaited = ?call, movedPhotoId = photoId p, closure = rendered (render g),
                thenNextPhoto = True, ofInstance = instanceNo g\<rparr>"
    let ?patched = "if ok then patchAfter ?h (store g) else store g"
    have st: "store (dispatch (Responded ok) ?g1) = nextPhoto ?patched"
      using store_after_response [OF susp, of ok] by (simp add: s Let_def)
    have cur: "currentPhotoIndex ?patched = currentPhotoIndex (store g)"
      by (simp add: patchAfter_def updatePhoto_def Let_def split: option.splits Method.splits)
    show ?thesis unfolding st view_nextPhoto cursor_nextPhoto cur ..
  qed
  show ?thesis using f s adv by blast
qed

text \<open>
  The A key on A, the current photo of the BLURRY tab.
\<close>

theorem triage_key_on_blurry_tab:
  "gridMounted blurryGrid \<and> suspended blurryGrid = [] \<and> \<not> isMoving blurryGrid
   \<and> getCurrentPhoto (store blurryGrid) = Some (examplePhoto ''A'' BLURRY True)
   \<and> currentSet (store blurryGrid) \<noteq> PENDING
   \<and> fetched (dispatch (User KeyA) blurryGrid)
        = [\<lparr>fetchMethod = POST, fetchAuthorization = ''Bearer token'', fetchPhotoIds = [''A'']\<rparr>]
   \<and> store (dispatch (User KeyA) blurryGrid) = store blurryGrid"
proof -
  have a: "suspended blurryGrid = []" and b: "\<not> isMoving blurryGrid"
    and c: "currentSet (store blurryGrid) \<noteq> PENDING"
    and t: "accessToken blurryGrid = ''token''" and f: "fetched blurryGrid = []"
    and cs: "currentSet (store blurryGrid) = BLURRY"
    by (simp_all add: blurryGrid_facts)
  have m: "gridMounted blurryGrid" by (rule blurryGrid_facts)
  have d: "getCurrentPhoto (store blurryGrid) = Some (examplePhoto ''A'' BLURRY True)"
    by (rule blurryGrid_current)
  have e: "photoId (examplePhoto ''A'' BLURRY True) = ''A''" by (simp add: examplePhoto_def)
  show ?thesis
    using triage_key_always_advances [OF m a b d c] m a b c d by (simp add: t f cs e)
qed

lemma gridMounted_fields:
  "gridMounted (g\<lparr>isMoving := b\<rparr>) = gridMounted g"
  "gridMounted (g\<lparr>store := s\<rparr>) = gridMounted g"
  "gridMounted (g\<lparr>fetched := fs\<rparr>) = gridMounted g"
  "gridMounted (g\<lparr>suspended := hs\<rparr>) = gridMounted g"
  "gridMounted (g\<lparr>rendered := r\<rparr>) = gridMounted g"
  by (simp_all add: gridMounted_def)

text \<open>
  While the grid stays mounted: a handler suspended at its fetch belongs to the mounted
  instance, \<open>isMoving\<close> is set and no second handler is suspended; every event but a failed
  or empty tick keeps that.
\<close>

lemma moveToFinalSet_oneInFlight:
  assumes "gridMounted g" and "suspended g = []" and "\<not> renderedIsMoving r"
  shows "oneInFlight (moveToFinalSet r i n g)"
  using assms
  by (simp add: oneInFlight_def moveToFinalSet_def startFetch_def Let_def afterMove_fields
        gridMounted_fields)

lemma onInput_oneInFlight:
  assumes "oneInFlight g" and "renderedIsMoving (rendered g) = isMoving g"
  shows "oneInFlight (onInput k g)"
proof (cases "isMoving g")
  case True
  then show ?thesis using assms
    by (cases k)
       (simp_all add: onInput_def onGridInput_def Let_def oneInFlight_def gridMounted_fields
          nextPhoto_def split: option.splits)
next
  case False
  then have idle: "suspended g = []" using assms(1) by (auto simp: oneInFlight_def)
  have m: "gridMounted g" using assms(1) by (simp add: oneInFlight_def)
  have nr: "\<not> renderedIsMoving (rendered g)" using False assms(2) by simp
  have mv: "oneInFlight (moveToFinalSet (rendered g) i n g)" for i n
    using m idle nr by (rule moveToFinalSet_oneInFlight)
  have mv': "oneInFlight (moveToFinalSet (rendered g) i n (g\<lparr>store := s\<rparr>))" for i n s
    using m idle nr by (intro moveToFinalSet_oneInFlight) (simp_all add: gridMounted_fields)
  show ?thesis
  proof (cases k)
    case KeyA
    then show ?thesis using assms(1) m nr mv
      by (simp add: onInput_def onGridInput_def Let_def split: option.splits)
  next
    case KeySpace
    then show ?thesis using assms(1) m nr mv
      by (simp add: onInput_def onGridInput_def Let_def split: option.splits)
  next
    case (Click n)
    then show ?thesis using assms(1) m nr mv'
      by (simp add: onInput_def onGridInput_def Let_def)
  qed (use assms(1) in \<open>simp_all add: onInput_def onGridInput_def Let_def oneInFlight_def
         gridMounted_fields\<close>)
qed

lemma dispatch_oneInFlight:
  assumes "oneInFlight g" and "keepsMounted ev"
  shows "oneInFlight (dispatch ev g)"
proof (cases ev)
  case (User k)
  have "oneInFlight (render g)" using assms(1) by (simp add: oneInFlight_def render_fields)
  then have "oneInFlight (onInput k (render g))"
    by (rule onInput_oneInFlight) (simp add: render_fields)
  then show ?thesis using User by (simp add: dispatch_def handle_def)
next
  case (Responded ok)
  show ?thesis
  proof (cases "suspended g")
    case Nil
    then show ?thesis using assms(1) Responded
      by (simp add: dispatch_def handle_def resume_def oneInFlight_def render_fields)
  next
    case (Cons h rest)
    then have "rest = []" and "ofInstance h = instanceNo g" and "gridMounted g"
      using assms(1) by (simp_all add: oneInFlight_def)
    then show ?thesis using Cons Responded
      by (simp add: dispatch_def handle_def resume_def oneInFlight_def render_fields
            afterMove_fields Let_def gridMounted_fields)
  qed
next
  case (Synced ps)
  then have ne: "ps \<noteq> []" using assms(2) by (simp add: keepsMounted_def)
  have was: "gridMounted (render g)" using assms(1) by (simp add: oneInFlight_def render_fields)
  have now: "gridMounted (g'\<lparr>queryData := Some ps, queryError := False\<rparr>)" for g' :: PhotoGrid
    using ne by (simp add: gridMounted_def)
  show ?thesis using Synced assms(1) was now
    by (simp add: dispatch_def handle_def mount_def oneInFlight_def render_fields
          gridMounted_fields)
next
  case SyncFailed
  then show ?thesis using assms(2) by (simp add: keepsMounted_def)
qed

lemma run_oneInFlight:
  assumes "oneInFlight g" and "\<forall>ev \<in> set evs. keepsMounted ev"
  shows "oneInFlight (run evs g)"
  using assms unfolding run_def
  by (induction evs arbitrary: g) (simp_all add: dispatch_oneInFlight)

lemma input_dropped_while_moving:
  assumes "isMoving g"
  shows "dispatch (User KeyA) g = render g" and "dispatch (User KeySpace) g = render g"
    and "fetched (dispatch (User k) g) = fetched g"
    and "suspended (dispatch (User k) g) = suspended g"
proof -
  have r: "renderedIsMoving (rendered (render g))" using assms by (simp add: render_fields)
  show "dispatch (User KeyA) g = render g" "dispatch (User KeySpace) g = render g"
    using r
    by (simp_all add: dispatch_def handle_def onInput_def onGridInput_def Let_def
          split: option.splits)
  show "fetched (dispatch (User k) g) = fetched g"
    using r by (cases k) (simp_all add: dispatch_def handle_def onInput_def onGridInput_def
        Let_def render_fields moveToFinalSet_def afterMove_fields split: option.splits)
  show "suspended (dispatch (User k) g) = suspended g"
    using r by (cases k) (simp_all add: dispatch_def handle_def onInput_def onGridInput_def
        Let_def render_fields moveToFinalSet_def afterMove_fields split: option.splits)
qed

text \<open>
  So the guard holds as long as the grid is not unmounted: from a mounted grid with no call
  in flight, after any events other than a failed or empty tick, at most one call is in
  flight, and while one is, the A key and space are dropped and no input fetches.
\<close>

lemma single_flight_while_mounted:
  assumes "gridMounted g0" and "suspended g0 = []" and "\<forall>ev \<in> set evs. keepsMounted ev"
  shows "length (suspended (run evs g0)) \<le> 1
       \<and> (suspended (run evs g0) \<noteq> [] \<longrightarrow>
            dispatch (User KeyA) (run evs g0) = render (run evs g0)
            \<and> dispatch (User KeySpace) (run evs g0) = render (run evs g0)
            \<and> (\<forall>k. fetched (dispatch (User k) (run evs g0)) = fetched (run evs g0)
                   \<and> suspended (dispatch (User k) (run evs g0)) = suspended (run evs g0)))"
proof -
  have "oneInFlight g0" using assms(1,2) by (simp add: oneInFlight_def)
  then have inv: "oneInFlight (run evs g0)" using assms(3) by (rule run_oneInFlight)
  then have len: "length (suspended (run evs g0)) \<le> 1" by (simp add: oneInFlight_def)
  have "isMoving (run evs g0)" if "suspended (run evs g0) \<noteq> []"
    using inv that by (simp add: oneInFlight_def)
  then show ?thesis using len input_dropped_while_moving by blast
qed

text \<open>
  Claim C7 at two presses of the A key on A within one call, with a tick that fails and one
  that succeeds between them (and likewise with an empty tick): the failed tick unmounts
  the grid, the next one mounts a new instance with \<open>isMoving = False\<close> while the first
  call is still in flight, and the second press fetches again: two POSTs for A.
\<close>

theorem remount_forgets_call_in_flight:
  "map movedPhotoId (suspended (run [User KeyA, SyncFailed, Synced scenarioABC] blurryGrid)) = [''A'']
   \<and> \<not> isMoving (run [User KeyA, SyncFailed, Synced scenarioABC] blurryGrid)
   \<and> fetched (run pressFailPress blurryGrid)
        = [\<lparr>fetchMethod = POST, fetchAuthorization = ''Bearer token'', fetchPhotoIds = [''A'']\<rparr>,
           \<lparr>fetchMethod = POST, fetchAuthorization = ''Bearer token'', fetchPhotoIds = [''A'']\<rparr>]
   \<and> map movedPhotoId (suspended (run pressFailPress blurryGrid)) = [''A'', ''A'']
   \<and> fetched (run pressEmptyPress blurryGrid)
        = [\<lparr>fetchMethod = POST, fetchAuthorization = ''Bearer token'', fetchPhotoIds = [''A'']\<rparr>,
           \<lparr>fetchMethod = POST, fetchAuthorization = ''Bearer token'', fetchPhotoIds = [''A'']\<rparr>]"
  by (simp add: pressFailPress_def pressEmptyPress_def run_def dispatch_def handle_def
        onInput_def onGridInput_def gridMounted_def mount_def moveToFinalSet_def startFetch_def
        afterMove_def nextPhoto_def array_get_def blurryGrid_def openGrid_def openPage_def
        render_def getFilteredPhotos_def setCurrentSet_def setPhotos_def initialState_def
        scenarioABC_def examplePhoto_def array_sort_def comparison_def Let_def)

section \<open>Synchronization\<close>

lemma findUnique_None_iff: "findUnique tbl i = None \<longleftrightarrow> i \<notin> photoId ` set tbl"
  by (induction tbl) (auto simp: findUnique_def)

lemma findUnique_listPhotos:
  assumes "distinct (map photoId db)"
  shows "findUnique (listPhotos pid db) i =
           (case findUnique db i of
              None \<Rightarrow> None
            | Some p \<Rightarrow> if projectId p = pid then Some p else None)"
proof -
  let ?rows = "filter (\<lambda>p. projectId p = pid) db"
  have d: "distinct (map photoId (listPhotos pid db))"
    unfolding listPhotos_def photo_findMany_def distinct_array_sort
    using assms by (rule distinct_map_filter)
  have s: "set (listPhotos pid db) = {p \<in> set db. projectId p = pid}"
    by (simp add: listPhotos_def photo_findMany_def set_array_sort)
  show ?thesis
  proof (cases "findUnique db i")
    case None
    then have "i \<notin> photoId ` set (listPhotos pid db)"
      unfolding s by (auto simp: findUnique_None_iff)
    then have "findUnique (listPhotos pid db) i = None"
      using findUnique_None_iff by blast
    then show ?thesis using None by simp
  next
    case (Some p)
    then have p: "p \<in> set db" "photoId p = i"
      using assms by (simp_all add: findUnique_Some_iff)
    show ?thesis
    proof (cases "projectId p = pid")
      case True
      then have "findUnique (listPhotos pid db) i = Some p"
        using p by (simp add: findUnique_Some_iff [OF d] s)
      then show ?thesis using Some True by simp
    next
      case False
      have "i \<notin> photoId ` set (listPhotos pid db)"
      proof
        assume "i \<in> photoId ` set (listPhotos pid db)"
        then obtain q where q: "q \<in> set db" "projectId q = pid" "photoId q = i"
          unfolding s by auto
        then have "findUnique db i = Some q" using assms by (simp add: findUnique_Some_iff)
        then show False using Some False q by simp
      qed
      then have "findUnique (listPhotos pid db) i = None"
        using findUnique_None_iff by blast
      then show ?thesis using Some False by simp
    qed
  qed
qed

lemma photos_after_sync: "photos (store (dispatch (Synced ps) g)) = ps"
  by (simp add: dispatch_def handle_def mount_def setPhotos_def)

lemmas eval_defs =
  execute_def step_def initialSystem_def openGrid_def openPage_def render_def initialState_def
  photo_create_def analysisResult_def originalSet_def listPhotos_def photo_findMany_def
  array_sort_def dispatch_def handle_def mount_def gridMounted_def onInput_def
  onGridInput_def resume_def moveToFinalSet_def
  startFetch_def afterMove_def patchAfter_def nextPhoto_def updatePhoto_def mergeUpdates_def
  array_get_def getFilteredPhotos_def setCurrentSet_def setPhotos_def comparison_def
  serve_def response_ok_def POST_move_to_final_def DELETE_move_to_final_def
  photo_updateMany_def Let_def

text \<open>
  Claim C8, as stated. G is uploaded, analysed as blurry and shown on the BLURRY tab; H
  is uploaded; a tick reads the project's rows (H and G); space promotes G, the route
  answers and the page patches G to FINAL; then the tick's response arrives: the page
  has G in BLURRY again, while the table has it in FINAL.
\<close>

theorem stale_tick_resets_promoted_photo:
  "map_option photoSet (findUnique
      (photos (store (client (execute overlappingTick (initialSystem ''token''))))) ''G'')
     = Some FINAL
   \<and> map_option photoSet (findUnique
      (server (execute overlappingTick (initialSystem ''token''))) ''G'') = Some FINAL
   \<and> map (map photoId) (polls (execute overlappingTick (initialSystem ''token'')))
     = [[''H'', ''G'']]
   \<and> map_option photoSet (findUnique
      (photos (store (client
         (execute (overlappingTick @ [PollArrives]) (initialSystem ''token''))))) ''G'')
     = Some BLURRY
   \<and> map_option photoSet (findUnique
      (server (execute (overlappingTick @ [PollArrives]) (initialSystem ''token''))) ''G'')
     = Some FINAL"
  by (simp add: overlappingTick_def findUnique_def eval_defs)

text \<open>
  Claim C8, amended. Applying a tick's response gives the page each photo as the response
  has it, whatever was patched before: for a photo of the project in BLURRY or CLEAN, a
  response read before its promote puts the photo back as it was before the promote, and
  a response read after the promote has it in FINAL and selected.
\<close>

theorem sync_response_replaces_patch:
  assumes "distinct (map photoId db)" and "findUnique db i = Some p"
    and "photoSet p \<in> {BLURRY, CLEAN}" and "projectId p = pid"
  shows "findUnique (photos (store (dispatch (Synced (listPhotos pid db)) g))) i = Some p
       \<and> findUnique (photos (store (dispatch (Synced (listPhotos pid (snd (promote [i] db)))) g))) i
           = Some (p\<lparr>photoSet := FINAL, isSelected := True\<rparr>)"
proof -
  let ?up = "\<lambda>p. if photoId p \<in> set [i] \<and> photoSet p \<in> {BLURRY, CLEAN}
                  then p\<lparr>photoSet := FINAL, isSelected := True\<rparr> else p"
  have pid: "photoId p = i" using assms(2) by (rule findUnique_Some_id)
  have stale: "findUnique (listPhotos pid db) i = Some p"
    using assms(2,4) by (simp add: findUnique_listPhotos [OF assms(1)])
  have up: "snd (promote [i] db) = map ?up db" by (simp add: promote_result)
  have "map photoId (map ?up db) = map photoId db" by (simp add: comp_def)
  then have d: "distinct (map photoId (map ?up db))" using assms(1) by (simp only:)
  have "findUnique (map ?up db) i = map_option ?up (findUnique db i)"
    by (rule findUnique_map) simp
  then have row: "findUnique (map ?up db) i = Some (p\<lparr>photoSet := FINAL, isSelected := True\<rparr>)"
    using assms(2,3) pid by auto
  have fresh: "findUnique (listPhotos pid (map ?up db)) i
                 = Some (p\<lparr>photoSet := FINAL, isSelected := True\<rparr>)"
    unfolding findUnique_listPhotos [OF d] row using assms(4) by simp
  show ?thesis unfolding photos_after_sync up using stale fresh by simp
qed

text \<open>
  On the project A, B, C: the response read before the promote of A has A in BLURRY, the
  one read after it has A in FINAL, and the page shows what the response has.
\<close>

theorem sync_response_on_blurry_tab:
  "distinct (map photoId scenarioABC)
   \<and> findUnique scenarioABC ''A'' = Some (examplePhoto ''A'' BLURRY True)
   \<and> photoSet (examplePhoto ''A'' BLURRY True) \<in> {BLURRY, CLEAN}
   \<and> projectId (examplePhoto ''A'' BLURRY True) = ''p1''
   \<and> findUnique (photos (store (dispatch (Synced (listPhotos ''p1'' scenarioABC)) blurryGrid))) ''A''
        = Some (examplePhoto ''A'' BLURRY True)
   \<and> findUnique (photos (store (dispatch
          (Synced (listPhotos ''p1'' (snd (promote [''A''] scenarioABC)))) blurryGrid))) ''A''
        = Some ((examplePhoto ''A'' BLURRY True)\<lparr>photoSet := FINAL, isSelected := True\<rparr>)"
proof -
  have a: "distinct (map photoId scenarioABC)"
    and b: "findUnique scenarioABC ''A'' = Some (examplePhoto ''A'' BLURRY True)"
    and c: "photoSet (examplePhoto ''A'' BLURRY True) \<in> {BLURRY, CLEAN}"
    and d: "projectId (examplePhoto ''A'' BLURRY True) = ''p1''"
    by (simp_all add: scenarioABC_def examplePhoto_def findUnique_def)
  show ?thesis
    using sync_response_replaces_patch [OF a b c d, of blurryGrid] a b c d by blast
qed

section \<open>The selection invariant\<close>

lemma POST_keeps_selection:
  assumes "\<forall>p \<in> set db. selectedIffFinal p"
  shows "\<forall>p \<in> set (snd (POST_move_to_final request db)). selectedIffFinal p"
  using assms
  by (auto simp: POST_move_to_final_def photo_updateMany_def selectedIffFinal_def
           split: option.splits)

lemma photo_update_keeps:
  assumes "photo_update i f db = Some db'" and "\<forall>p \<in> set db. Q p" and "\<And>p. Q (f p)"
  shows "\<forall>p \<in> set db'. Q p"
  using assms by (induction db arbitrary: db') (auto split: if_splits)

lemma updatePromises_keeps_selection:
  assumes "\<forall>p \<in> set db. selectedIffFinal p"
  shows "\<forall>p \<in> set (snd (updatePromises phs db)). selectedIffFinal p"
  using assms
proof (induction phs arbitrary: db)
  case Nil
  then show ?case by simp
next
  case (Cons ph phs)
  obtain i b where ph: "ph = (i, b)" by (cases ph)
  let ?f = "\<lambda>p. p\<lparr>photoSet := originalSet b, isSelected := False\<rparr>"
  show ?case
  proof (cases "photo_update i ?f db")
    case None
    then show ?thesis using Cons ph by simp
  next
    case (Some db')
    have "\<forall>p \<in> set db'. selectedIffFinal p"
      using Some Cons.prems
      by (rule photo_update_keeps) (simp add: selectedIffFinal_def originalSet_def)
    then have "\<forall>p \<in> set (snd (updatePromises phs db')). selectedIffFinal p"
      by (rule Cons.IH)
    then show ?thesis using Some ph by simp
  qed
qed

lemma DELETE_keeps_selection:
  assumes "\<forall>p \<in> set db. selectedIffFinal p"
  shows "\<forall>p \<in> set (snd (DELETE_move_to_final request db)). selectedIffFinal p"
proof (cases "photoIds request")
  case None
  then show ?thesis using assms by (simp add: DELETE_move_to_final_def)
next
  case (Some ids)
  let ?phs = "map (\<lambda>p. (photoId p, isBlurry p))
                (photo_findMany (\<lambda>p. photoId p \<in> set ids \<and> photoSet p = FINAL) db)"
  have "\<forall>p \<in> set (snd (updatePromises ?phs db)). selectedIffFinal p"
    using assms by (rule updatePromises_keeps_selection)
  then show ?thesis using Some assms
    by (simp add: DELETE_move_to_final_def Let_def split_beta)
qed

lemma serve_keeps_selection:
  assumes "\<forall>p \<in> set db. selectedIffFinal p"
  shows "\<forall>p \<in> set (snd (serve call db)). selectedIffFinal p"
  using POST_keeps_selection [OF assms] DELETE_keeps_selection [OF assms]
  by (simp add: serve_def Let_def split: Method.splits)

lemma moveToFinalSet_photos: "photos (store (moveToFinalSet r i n g)) = photos (store g)"
  by (simp add: moveToFinalSet_def startFetch_def Let_def afterMove_fields)

lemma input_keeps_photos: "photos (store (dispatch (User k) g)) = photos (store g)"
  by (cases k)
     (simp_all add: dispatch_def handle_def onInput_def onGridInput_def Let_def render_fields
        moveToFinalSet_photos nextPhoto_def prevPhoto_def setCurrentPhotoIndex_def selectAll_def
        deselectAll_def setCurrentSet_def split: option.splits)

lemma failed_sync_keeps_store: "store (dispatch SyncFailed g) = store g"
  by (simp add: dispatch_def handle_def render_def)

lemma patchAfter_keeps_selection:
  assumes "\<forall>p \<in> set (photos state). selectedIffFinal p"
  shows "\<forall>p \<in> set (photos (patchAfter h state)). selectedIffFinal p"
  using assms
  by (auto simp: patchAfter_def updatePhoto_def mergeUpdates_def selectedIffFinal_def
        originalSet_def Let_def split: Method.splits option.splits)

lemma response_keeps_selection:
  assumes "\<forall>p \<in> set (photos (store g)). selectedIffFinal p"
  shows "\<forall>p \<in> set (photos (store (dispatch (Responded ok) g))). selectedIffFinal p"
proof (cases "suspended g")
  case Nil
  then show ?thesis using assms
    by (simp add: dispatch_def handle_def resume_def render_fields)
next
  case (Cons h rest)
  have "\<forall>p \<in> set (photos (patchAfter h (store g))). selectedIffFinal p"
    using assms by (rule patchAfter_keeps_selection)
  then show ?thesis using assms store_after_response [OF Cons, of ok]
    by (simp add: Let_def nextPhoto_def)
qed

lemma step_keeps_selection:
  assumes "allSelectedIffFinal sys"
  shows "allSelectedIffFinal (step op sys)"
proof -
  have db: "\<forall>p \<in> set (server sys). selectedIffFinal p"
    and cl: "\<forall>p \<in> set (photos (store (client sys))). selectedIffFinal p"
    and po: "\<forall>ps \<in> set (polls sys). \<forall>p \<in> set ps. selectedIffFinal p"
    using assms by (simp_all add: allSelectedIffFinal_def)
  show ?thesis
  proof (cases op)
    case (Does k)
    then show ?thesis using db cl po
      by (simp add: step_def allSelectedIffFinal_def input_keeps_photos)
  next
    case Settles
    show ?thesis
    proof (cases "suspended (client sys)")
      case Nil
      then show ?thesis using Settles assms by (simp add: step_def)
    next
      case (Cons h rest)
      have "\<forall>p \<in> set (snd (serve (awaited h) (server sys))). selectedIffFinal p"
        using db by (rule serve_keeps_selection)
      moreover have "\<forall>p \<in> set (photos (store (dispatch (Responded ok) (client sys)))).
                       selectedIffFinal p" for ok
        using cl by (rule response_keeps_selection)
      ultimately show ?thesis using Settles Cons po
        by (simp add: step_def allSelectedIffFinal_def split_beta)
    qed
  next
    case Fails
    then show ?thesis using db po response_keeps_selection [OF cl]
      by (simp add: step_def allSelectedIffFinal_def)
  next
    case (Calls c)
    then show ?thesis using serve_keeps_selection [OF db] cl po
      by (simp add: step_def allSelectedIffFinal_def)
  next
    case (Upload newId pid name bytes url now)
    then show ?thesis using db cl po
      by (auto simp: step_def allSelectedIffFinal_def photo_create_def selectedIffFinal_def)
  next
    case (Analysed i blurry blur quality now)
    then show ?thesis using db cl po
      by (auto simp: step_def allSelectedIffFinal_def analysisResult_def selectedIffFinal_def
            originalSet_def)
  next
    case (PollSent pid)
    have "\<forall>p \<in> set (listPhotos pid (server sys)). selectedIffFinal p"
      using db by (simp add: listPhotos_def photo_findMany_def set_array_sort)
    then show ?thesis using PollSent db cl po
      by (simp add: step_def allSelectedIffFinal_def)
  next
    case PollArrives
    show ?thesis
    proof (cases "polls sys")
      case Nil
      then show ?thesis using PollArrives assms by (simp add: step_def)
    next
      case (Cons ps rest)
      then show ?thesis using PollArrives db po
        by (simp add: step_def allSelectedIffFinal_def photos_after_sync)
    qed
  next
    case PollFails
    then show ?thesis using db cl po
      by (simp add: step_def allSelectedIffFinal_def failed_sync_keeps_store)
  qed
qed

lemma execute_keeps_selection:
  assumes "allSelectedIffFinal sys"
  shows "allSelectedIffFinal (execute ops sys)"
  using assms unfolding execute_def
  by (induction ops arbitrary: sys) (simp_all add: step_keeps_selection)

text \<open>
  Claim C1. After any sequence of operations from the opening of the page on an empty
  project (inputs, promote and demote calls of the page settled or failed, promote and
  demote calls of any other client, uploads, analysis results, ticks sent, arrived and
  failed),
  every row of the table and every photo of the store is selected exactly when it is in
  FINAL.
\<close>

theorem selected_iff_final_invariant:
  "\<forall>p \<in> set (server (execute ops (initialSystem token)))
         \<union> set (photos (store (client (execute ops (initialSystem token))))).
     isSelected p \<longleftrightarrow> photoSet p = FINAL"
proof -
  have "allSelectedIffFinal (initialSystem token)"
    by (simp add: allSelectedIffFinal_def initialSystem_def openPage_def initialState_def)
  then have "allSelectedIffFinal (execute ops (initialSystem token))"
    by (rule execute_keeps_selection)
  then show ?thesis by (auto simp: allSelectedIffFinal_def selectedIffFinal_def)
qed

text \<open>
  After the promote of G has settled, G is a row of the table and a photo of the store,
  selected and in FINAL.
\<close>

theorem selected_iff_final_after_promote:
  "promotedG \<in> set (server (execute overlappingTick (initialSystem ''token'')))
             \<union> set (photos (store (client (execute overlappingTick (initialSystem ''token'')))))
   \<and> isSelected promotedG \<and> photoSet promotedG = FINAL"
  using selected_iff_final_invariant [of overlappingTick "''token''"]
  by (simp add: promotedG_def overlappingTick_def eval_defs)

section \<open>The round trip of promote and demote\<close>

text \<open>
  The table keeps its key, and a row in BLURRY or CLEAN is there according to its
  \<open>isBlurry\<close> flag: the analysis files it so, promote leaves the flag alone, and demote
  files by the flag.
\<close>

lemma POST_keeps_table:
  assumes "tableInvariant db"
  shows "tableInvariant (snd (POST_move_to_final request db))"
proof (cases "photoIds request")
  case None
  then show ?thesis using assms by (simp add: POST_move_to_final_def)
next
  case (Some ids)
  let ?f = "\<lambda>p. if photoId p \<in> set ids \<and> photoSet p \<in> {BLURRY, CLEAN}
                 then p\<lparr>photoSet := FINAL, isSelected := True\<rparr> else p"
  have "map photoId (map ?f db) = map photoId db" by (simp add: comp_def)
  then have "distinct (map photoId (map ?f db))" using assms by (simp only: tableInvariant_def)
  moreover have "\<forall>p \<in> set (map ?f db). classifiedByFlag p"
    using assms by (auto simp: tableInvariant_def classifiedByFlag_def)
  ultimately have "tableInvariant (map ?f db)" by (simp only: tableInvariant_def simp_thms)
  then show ?thesis using Some assms
    by (simp add: POST_move_to_final_def photo_updateMany_def)
qed

lemma DELETE_keeps_table:
  assumes "tableInvariant db"
  shows "tableInvariant (snd (DELETE_move_to_final request db))"
proof (cases "photoIds request")
  case None
  then show ?thesis using assms by (simp add: DELETE_move_to_final_def)
next
  case (Some ids)
  show ?thesis
  proof (cases "ids = []")
    case True
    then show ?thesis using Some assms by (simp add: DELETE_move_to_final_def)
  next
    case False
    let ?f = "\<lambda>p. if photoId p \<in> set ids \<and> photoSet p = FINAL
                   then p\<lparr>photoSet := (if isBlurry p then BLURRY else CLEAN),
                          isSelected := False\<rparr>
                   else p"
    have d: "distinct (map photoId db)" using assms by (simp add: tableInvariant_def)
    have res: "snd (DELETE_move_to_final request db) = map ?f db"
      using DELETE_result [OF d Some False] by simp
    have "map photoId (map ?f db) = map photoId db" by (simp add: comp_def)
    then have "distinct (map photoId (map ?f db))" using d by (simp only:)
    moreover have "\<forall>p \<in> set (map ?f db). classifiedByFlag p"
      using assms by (auto simp: tableInvariant_def classifiedByFlag_def originalSet_def)
    ultimately show ?thesis unfolding res by (simp only: tableInvariant_def simp_thms)
  qed
qed

lemma create_keeps_table:
  assumes "tableInvariant db"
  shows "tableInvariant (photo_create newId pid name bytes url now db)"
  using assms by (auto simp: tableInvariant_def photo_create_def classifiedByFlag_def)

lemma analysis_keeps_table:
  assumes "tableInvariant db"
  shows "tableInvariant (analysisResult i blurry blur quality now db)"
proof -
  let ?f = "\<lambda>p. if photoId p = i \<and> photoSet p = PENDING
                 then p\<lparr>blurScore := Some blur, isBlurry := blurry, qualityScore := Some quality,
                        analyzedAt := Some now, photoSet := originalSet blurry\<rparr>
                 else p"
  have "map photoId (map ?f db) = map photoId db" by (simp add: comp_def)
  then have "distinct (map photoId (map ?f db))" using assms by (simp only: tableInvariant_def)
  moreover have "\<forall>p \<in> set (map ?f db). classifiedByFlag p"
    using assms by (auto simp: tableInvariant_def classifiedByFlag_def)
  ultimately show ?thesis
    unfolding analysisResult_def by (simp only: tableInvariant_def simp_thms)
qed

lemma serve_keeps_table:
  assumes "tableInvariant db"
  shows "tableInvariant (snd (serve call db))"
  using POST_keeps_table [OF assms] DELETE_keeps_table [OF assms]
  by (simp add: serve_def Let_def split: Method.splits)

lemma step_keeps_table:
  assumes "tableInvariant (server sys)"
  shows "tableInvariant (server (step op sys))"
proof (cases op)
  case Settles
  show ?thesis
  proof (cases "suspended (client sys)")
    case Nil
    then show ?thesis using Settles assms by (simp add: step_def)
  next
    case (Cons h rest)
    have "tableInvariant (snd (serve (awaited h) (server sys)))"
      using assms by (rule serve_keeps_table)
    then show ?thesis using Settles Cons by (simp add: step_def split_beta)
  qed
next
  case (Calls c)
  then show ?thesis using serve_keeps_table [OF assms] by (simp add: step_def)
next
  case (Upload newId pid name bytes url now)
  then show ?thesis using create_keeps_table [OF assms] by (simp add: step_def)
next
  case (Analysed i blurry blur quality now)
  then show ?thesis using analysis_keeps_table [OF assms] by (simp add: step_def)
next
  case PollArrives
  then show ?thesis using assms by (simp add: step_def split: list.splits)
qed (use assms in \<open>simp_all add: step_def\<close>)

lemma execute_keeps_table:
  assumes "tableInvariant (server sys)"
  shows "tableInvariant (server (execute ops sys))"
  using assms unfolding execute_def
  by (induction ops arbitrary: sys) (simp_all add: step_keeps_table)

text \<open>
  For a row filed according to its flag, promote and then demote give the row back,
  unselected.
\<close>

lemma round_trip_of_classified_row:
  assumes "distinct (map photoId db)" and "findUnique db i = Some p"
    and "photoSet p \<in> {BLURRY, CLEAN}" and "photoSet p = originalSet (isBlurry p)"
  shows "findUnique (snd (demote [i] (snd (promote [i] db)))) i = Some (p\<lparr>isSelected := False\<rparr>)"
proof -
  let ?up = "\<lambda>p. if photoId p \<in> set [i] \<and> photoSet p \<in> {BLURRY, CLEAN}
                  then p\<lparr>photoSet := FINAL, isSelected := True\<rparr> else p"
  let ?down = "\<lambda>p. if photoId p \<in> set [i] \<and> photoSet p = FINAL
                    then p\<lparr>photoSet := (if isBlurry p then BLURRY else CLEAN),
                           isSelected := False\<rparr>
                    else p"
  have pid: "photoId p = i" using assms(2) by (rule findUnique_Some_id)
  have up: "snd (promote [i] db) = map ?up db"
    by (simp add: promote_result)
  have "map photoId (map ?up db) = map photoId db" by (simp add: comp_def)
  then have d: "distinct (map photoId (map ?up db))"
    using assms(1) by (simp only:)
  have down: "snd (demote [i] (map ?up db)) = map ?down (map ?up db)"
    using demote_result [OF d, of "[i]"] by simp
  have "findUnique (map ?down (map ?up db)) i = map_option ?down (findUnique (map ?up db) i)"
    by (rule findUnique_map) simp
  also have "findUnique (map ?up db) i = map_option ?up (findUnique db i)"
    by (rule findUnique_map) simp
  also have "map_option ?down (map_option ?up (findUnique db i)) = Some (?down (?up p))"
    using assms(2) by simp
  also have "?down (?up p) = p\<lparr>isSelected := False\<rparr>"
    using pid assms(3,4) by (auto simp: originalSet_def split: if_splits)
  finally show ?thesis unfolding up down .
qed

text \<open>
  The agreement of set and flag carries the law: a row filed in BLURRY with the flag not
  set, which no operation produces, would come back in CLEAN.
\<close>

lemma round_trip_needs_agreement:
  "photoSet misfiled = BLURRY
   \<and> map_option photoSet
        (findUnique (snd (demote [''X''] (snd (promote [''X''] [misfiled])))) ''X'') = Some CLEAN"
  by (simp add: misfiled_def examplePhoto_def promote_def demote_def POST_move_to_final_def
        DELETE_move_to_final_def photo_updateMany_def photo_findMany_def findUnique_def
        originalSet_def)

text \<open>
  Claim C2. After any sequence of operations, for every row p of the table in BLURRY or
  CLEAN, promote of its id and then demote of its id give back p, in its original set and
  with \<open>isSelected = False\<close>, no other field changed: demote recomputes the set from the
  \<open>isBlurry\<close> flag, which is the one the row was filed by.
\<close>

theorem promote_then_demote_round_trip:
  assumes "findUnique (server (execute ops (initialSystem token))) i = Some p"
    and "photoSet p \<in> {BLURRY, CLEAN}"
  shows "findUnique (snd (demote [i] (snd (promote [i] (server (execute ops (initialSystem token))))))) i
           = Some (p\<lparr>isSelected := False\<rparr>)"
proof -
  let ?db = "server (execute ops (initialSystem token))"
  have "tableInvariant (server (initialSystem token))"
    by (simp add: tableInvariant_def initialSystem_def)
  then have inv: "tableInvariant ?db" by (rule execute_keeps_table)
  then have d: "distinct (map photoId ?db)" by (simp add: tableInvariant_def)
  have "p \<in> set ?db" using assms(1) d by (simp add: findUnique_Some_iff)
  then have "classifiedByFlag p" using inv by (simp add: tableInvariant_def)
  then have c: "photoSet p = originalSet (isBlurry p)"
    using assms(2) by (auto simp: classifiedByFlag_def)
  show ?thesis using d assms(1,2) c by (rule round_trip_of_classified_row)
qed

text \<open>
  G, uploaded and analysed as blurry, is in BLURRY; promoted and demoted, it is the same
  row again.
\<close>

theorem round_trip_of_analysed_photo:
  "findUnique (server (execute uploadedAndAnalysed (initialSystem ''token''))) ''G''
     = Some (promotedG\<lparr>photoSet := BLURRY, isSelected := False\<rparr>)
   \<and> photoSet (promotedG\<lparr>photoSet := BLURRY, isSelected := False\<rparr>) \<in> {BLURRY, CLEAN}
   \<and> findUnique (snd (demote [''G''] (snd (promote [''G'']
        (server (execute uploadedAndAnalysed (initialSystem ''token''))))))) ''G''
     = Some (promotedG\<lparr>photoSet := BLURRY, isSelected := False\<rparr>)"
proof -
  have a: "findUnique (server (execute uploadedAndAnalysed (initialSystem ''token''))) ''G''
             = Some (promotedG\<lparr>photoSet := BLURRY, isSelected := False\<rparr>)"
    by (simp add: uploadedAndAnalysed_def promotedG_def findUnique_def eval_defs)
  have b: "photoSet (promotedG\<lparr>photoSet := BLURRY, isSelected := False\<rparr>) \<in> {BLURRY, CLEAN}"
    by simp
  show ?thesis using promote_then_demote_round_trip [OF a b] a b by simp
qed

end
